theory Spec2Isabelle
  imports Complex_Main "HOL-Library.Sublist"
begin

section \<open>Exceptions and data\<close>

text \<open>
  The script \<^verbatim>\<open>grabber.py\<close> walks a Google Drive folder tree, grabs one frame of every
  video, uploads it as a thumbnail and appends a row to a Google Sheet. Everything it does
  is an effect on a remote service or on the local disk, so the model threads an explicit
  state through every function and takes the behaviour of the services as a record of
  functions, \<open>world\<close>. A Python exception is a value \<open>Inl e\<close> of the result.

  The exception classes the handlers of the source tell apart: \<open>HttpError\<close> (caught by
  \<^verbatim>\<open>process_video\<close>, \<^verbatim>\<open>traverse_folder\<close> and \<^verbatim>\<open>append_to_sheet\<close>), \<open>TimeoutError\<close>
  and \<open>SocketTimeout\<close> (caught by \<^verbatim>\<open>append_to_sheet\<close> only), \<open>OSError\<close> for the other
  errors of the local file system (a missing file, a refused deletion), \<open>OverflowError\<close>
  and \<open>ValueError\<close> (raised by \<^verbatim>\<open>int()\<close> of an infinite float and of a NaN), and
  \<open>OtherError\<close> for any other subclass of \<^verbatim>\<open>Exception\<close>.
\<close>

datatype exn =
  HttpError | TimeoutError | SocketTimeout | OSError | OverflowError | ValueError | OtherError

text \<open>
  A Python float: a finite double, given by its value, an infinity of either sign, or a
  NaN. \<open>Finite 0\<close> stands for both zeros, which Python does not tell apart in \<^verbatim>\<open>== 0\<close> or
  in \<^verbatim>\<open>not\<close>.
\<close>

datatype pyfloat = Finite rat | Infinite | NaN

text \<open>
  An entry of a listing, with the fields the listing asks for
  (\<^verbatim>\<open>files(id, name, mimeType)\<close>). The source reads the type with
  \<^verbatim>\<open>item.get("mimeType", "")\<close>, so that field may be absent. Drive sends the id and the
  name of every file, and the model takes both as present.
\<close>

record item =
  item_id :: string
  item_name :: string
  mimeType :: "string option"

text \<open>The answer of \<^verbatim>\<open>files().list(...).execute()\<close>: one page of entries and, when
  more pages follow, the token that asks for the next one.\<close>

record list_response =
  files :: "item list option"
  nextPageToken :: "string option"

record file_metadata =
  md_name :: string
  md_parents :: "string list"

text \<open>The answer of \<^verbatim>\<open>files().create(...).execute()\<close>; the source reads each field with
  \<^verbatim>\<open>.get\<close>, which gives \<^verbatim>\<open>None\<close> for an absent one.\<close>

record uploaded_file =
  up_id :: "string option"
  up_name :: "string option"
  webViewLink :: "string option"

type_synonym cell = "string option"
type_synonym row = "cell list"

section \<open>The environment\<close>

text \<open>
  What the remote services, the local file system and OpenCV answer. Only the calls the
  source makes appear.
  \<^item> \<open>files_list w folder_id page_token\<close>: the answer to the listing query
    \<^verbatim>\<open>'<folder_id>' in parents and trashed=false\<close> for the given page token.
  \<^item> \<open>get_media w file_id\<close>: the outcomes of the successive \<^verbatim>\<open>next_chunk()\<close> calls of a
    download, each a chunk of bytes or an exception.
  \<^item> \<open>fs_open_wb\<close>, \<open>fs_write\<close>, \<open>os_remove\<close>: whether opening a path for writing, writing
    to it, and deleting it raise.
  \<^item> \<open>cap_fps\<close>, \<open>cap_read\<close>: \<^verbatim>\<open>CAP_PROP_FPS\<close> of a video (0 when OpenCV cannot tell) and
    the result of reading after a seek to a frame index; \<open>cv_imwrite\<close> is the result of
    \<^verbatim>\<open>cv2.imwrite\<close> for a path.
  \<^item> \<open>files_create\<close>: the answer to an upload.
  \<^item> \<open>values_append w k row\<close>: the outcome of the \<open>k\<close>-th append request the sheet
    receives (\<open>None\<close>: the row is written).
  The answers of Drive, of the local file system and of OpenCV depend on the request
  only; the answer of the sheet may also depend on how many requests it has received,
  which is what the retry loop reacts to. A request to the sheet that raises writes nothing.
  Frame rates and the capture timestamp are Python floats (the timestamp is
  \<^verbatim>\<open>float(os.getenv(...))\<close>, which also accepts \<^verbatim>\<open>inf\<close> and \<^verbatim>\<open>nan\<close>).
  \<open>float_mul w x y\<close> is the double-precision product \<^verbatim>\<open>x * y\<close> as the machine rounds it;
  nothing is assumed about it. The \<^verbatim>\<open>print\<close> calls of the source are left out.
\<close>

record world =
  THUMBNAIL_FOLDER_ID :: string
  CAPTURE_TIMESTAMP_SECONDS :: pyfloat
  float_mul :: "pyfloat \<Rightarrow> pyfloat \<Rightarrow> pyfloat"
  files_list :: "string \<Rightarrow> string option \<Rightarrow> exn + list_response"
  get_media :: "string \<Rightarrow> (exn + string) list"
  fs_open_wb :: "string \<Rightarrow> exn option"
  fs_write :: "string \<Rightarrow> exn option"
  cap_fps :: "string \<Rightarrow> pyfloat"
  cap_read :: "string \<Rightarrow> int \<Rightarrow> bool \<times> string option"
  cv_imwrite :: "string \<Rightarrow> bool"
  files_create :: "file_metadata \<Rightarrow> string \<Rightarrow> exn + uploaded_file"
  os_remove :: "string \<Rightarrow> exn option"
  values_append :: "nat \<Rightarrow> row \<Rightarrow> exn option"

text \<open>Every request to a service and every change of the local disk is recorded, in order.\<close>

datatype event =
    ListCall string "string option"
  | DownloadCall string
  | SeekFrame int
  | ReadFrame
  | UploadCall file_metadata
  | AppendCall row
  | Sleep nat
  | FileCreated string
  | FileRemoved string

record state =
  fs :: "string \<rightharpoonup> string"
  drive_uploaded :: "(file_metadata \<times> string) list"
  sheet :: "row list"
  append_requests :: nat
  events :: "event list"

definition log :: "event \<Rightarrow> state \<Rightarrow> state" where
  "log e s = s\<lparr>events := events s @ [e]\<rparr>"

section \<open>append_to_sheet\<close>

definition max_retries :: nat where
  "max_retries = 5"

definition transient :: "exn \<Rightarrow> bool" where
  "transient e = (e = HttpError \<or> e = TimeoutError \<or> e = SocketTimeout)"

text \<open>
  The loop \<^verbatim>\<open>for attempt in range(max_retries)\<close>, from a given attempt and backoff. A
  request that succeeds writes the row and returns; one of the three caught exceptions
  either ends the loop (last attempt) or sleeps and doubles the backoff; any other
  exception leaves the function.
\<close>

function append_attempts :: "world \<Rightarrow> row \<Rightarrow> nat \<Rightarrow> nat \<Rightarrow> state \<Rightarrow> (exn + unit) \<times> state" where
  "append_attempts w data_row attempt backoff_seconds s =
     (if attempt < max_retries then
        (let s1 = (log (AppendCall data_row) s)\<lparr>append_requests := append_requests s + 1\<rparr> in
         case values_append w (append_requests s) data_row of
           None \<Rightarrow> (Inr (), s1\<lparr>sheet := sheet s1 @ [data_row]\<rparr>)
         | Some error \<Rightarrow>
             if transient error then
               (if attempt + 1 = max_retries then (Inr (), s1)
                else append_attempts w data_row (attempt + 1) (backoff_seconds * 2)
                       (log (Sleep backoff_seconds) s1))
             else (Inl error, s1))
      else (Inr (), s))"
  by pat_completeness auto
termination
  by (relation "measure (\<lambda>(w, data_row, attempt, backoff_seconds, s). max_retries - attempt)") auto

definition append_to_sheet :: "world \<Rightarrow> row option \<Rightarrow> state \<Rightarrow> (exn + unit) \<times> state" where
  "append_to_sheet w data_row s =
     (case data_row of
        None \<Rightarrow> (Inr (), s)
      | Some r \<Rightarrow> if r = [] then (Inr (), s) else append_attempts w r 0 2 s)"

section \<open>process_video\<close>

text \<open>
  Python's \<^verbatim>\<open>int()\<close> of a float drops the fractional part of a finite value, raises
  \<^verbatim>\<open>OverflowError\<close> for an infinity and \<^verbatim>\<open>ValueError\<close> for a NaN.
\<close>

definition py_int :: "pyfloat \<Rightarrow> exn + int" where
  "py_int x = (case x of
                 Finite v \<Rightarrow> Inr (if 0 \<le> v then \<lfloor>v\<rfloor> else \<lceil>v\<rceil>)
               | Infinite \<Rightarrow> Inl OverflowError
               | NaN \<Rightarrow> Inl ValueError)"

text \<open>\<^verbatim>\<open>str.rfind\<close> of one character: the last index where it occurs, or -1.\<close>

definition rfind :: "string \<Rightarrow> char \<Rightarrow> int" where
  "rfind p c = (case filter (\<lambda>i. p ! i = c) (rev [0..<length p]) of
                  [] \<Rightarrow> -1 | i # _ \<Rightarrow> int i)"

text \<open>
  \<^verbatim>\<open>os.path.splitext\<close> (the POSIX one): the extension starts at the last dot, when that
  dot comes after the last slash and some character other than a dot stands between them.
\<close>

definition splitext :: "string \<Rightarrow> string \<times> string" where
  "splitext p =
     (let sepIndex = rfind p (CHR ''/''); dotIndex = rfind p (CHR ''.'') in
      if dotIndex > sepIndex \<and>
         list_ex (\<lambda>i. p ! i \<noteq> CHR ''.'') [nat (sepIndex + 1)..<nat dotIndex]
      then (take (nat dotIndex) p, drop (nat dotIndex) p)
      else (p, []))"

text \<open>The download loop \<^verbatim>\<open>while not done: status, done = downloader.next_chunk()\<close>.\<close>

fun next_chunks :: "(exn + string) list \<Rightarrow> string \<Rightarrow> exn + string" where
  "next_chunks [] fh = Inr fh"
| "next_chunks (Inl error # rest) fh = Inl error"
| "next_chunks (Inr chunk # rest) fh = next_chunks rest (fh @ chunk)"

definition download :: "world \<Rightarrow> string \<Rightarrow> state \<Rightarrow> (exn + string) \<times> state" where
  "download w file_id s = (next_chunks (get_media w file_id) [], log (DownloadCall file_id) s)"

text \<open>\<^verbatim>\<open>with open(temp_video_path, "wb") as f: f.write(fh.read())\<close>.\<close>

definition write_video :: "world \<Rightarrow> string \<Rightarrow> string \<Rightarrow> state \<Rightarrow> (exn + unit) \<times> state" where
  "write_video w path content s =
     (case fs_open_wb w path of
        Some error \<Rightarrow> (Inl error, s)
      | None \<Rightarrow>
          (let s1 = (log (FileCreated path) s)\<lparr>fs := (fs s)(path \<mapsto> [])\<rparr> in
           case fs_write w path of
             Some error \<Rightarrow> (Inl error, s1)
           | None \<Rightarrow> (Inr (), s1\<lparr>fs := (fs s1)(path \<mapsto> content)\<rparr>)))"

text \<open>\<^verbatim>\<open>vidcap.get(cv2.CAP_PROP_FPS)\<close> on the file at the path; a capture that could not
  be opened reports 0.\<close>

definition video_fps :: "world \<Rightarrow> string \<Rightarrow> state \<Rightarrow> pyfloat" where
  "video_fps w path s =
     (case fs s path of None \<Rightarrow> Finite 0 | Some content \<Rightarrow> cap_fps w content)"

text \<open>\<^verbatim>\<open>vidcap.set(cv2.CAP_PROP_POS_FRAMES, frame_id)\<close>, then \<^verbatim>\<open>vidcap.read()\<close>.\<close>

definition seek_and_read :: "world \<Rightarrow> string \<Rightarrow> int \<Rightarrow> state \<Rightarrow> (bool \<times> string option) \<times> state" where
  "seek_and_read w path frame_id s =
     ((case fs s path of None \<Rightarrow> (False, None) | Some content \<Rightarrow> cap_read w content frame_id),
      log ReadFrame (log (SeekFrame frame_id) s))"

text \<open>The local paths \<^verbatim>\<open>f"temp_{file_name}"\<close> and \<^verbatim>\<open>f"temp_{thumbnail_name}"\<close>.\<close>

definition temp_path :: "string \<Rightarrow> string" where
  "temp_path name = ''temp_'' @ name"

text \<open>\<^verbatim>\<open>f"{os.path.splitext(file_name)[0]}_Thumbnail.jpg"\<close>.\<close>

definition thumbnail_name_of :: "string \<Rightarrow> string" where
  "thumbnail_name_of file_name = fst (splitext file_name) @ ''_Thumbnail.jpg''"

text \<open>
  Lines 141 to 161: write the frame to the thumbnail path, upload it, build the row. The
  second component is \<^verbatim>\<open>thumbnail_path\<close>, set by then. \<^verbatim>\<open>MediaFileUpload\<close> opens the
  file and raises when it is not there (\<^verbatim>\<open>cv2.imwrite\<close> only returns \<^verbatim>\<open>False\<close> when it
  could not write, and the source does not look at that).
\<close>

definition upload_thumbnail ::
  "world \<Rightarrow> string \<Rightarrow> string \<Rightarrow> string \<Rightarrow> state \<Rightarrow>
   (exn + (cell \<times> string \<times> cell) option) \<times> string option \<times> state" where
  "upload_thumbnail w file_name folder_path img s =
     (let thumbnail_name = thumbnail_name_of file_name;
          thumbnail_path = temp_path thumbnail_name;
          s1 = (if cv_imwrite w thumbnail_path
                then (log (FileCreated thumbnail_path) s)\<lparr>fs := (fs s)(thumbnail_path \<mapsto> img)\<rparr>
                else s);
          file_metadata = \<lparr>md_name = thumbnail_name, md_parents = [THUMBNAIL_FOLDER_ID w]\<rparr>
      in case fs s1 thumbnail_path of
           None \<Rightarrow> (Inl OSError, Some thumbnail_path, s1)
         | Some media \<Rightarrow>
             (let s2 = log (UploadCall file_metadata) s1 in
              case files_create w file_metadata media of
                Inl error \<Rightarrow> (Inl error, Some thumbnail_path, s2)
              | Inr uploaded_thumbnail \<Rightarrow>
                  (Inr (Some (up_name uploaded_thumbnail, folder_path,
                              webViewLink uploaded_thumbnail)),
                   Some thumbnail_path,
                   s2\<lparr>drive_uploaded := drive_uploaded s2 @ [(file_metadata, media)]\<rparr>)))"

text \<open>
  The body of the \<^verbatim>\<open>try\<close>: how it ends (a returned value or a raised exception), the
  values of \<^verbatim>\<open>temp_video_path\<close> and \<^verbatim>\<open>thumbnail_path\<close> at that moment, and the state.
  The test \<^verbatim>\<open>not fps or fps == 0\<close> holds for a zero only (an infinity and a NaN are true
  and differ from 0), and \<^verbatim>\<open>int(fps * CAPTURE_TIMESTAMP_SECONDS)\<close> may raise.
\<close>

definition process_video_try ::
  "world \<Rightarrow> string \<Rightarrow> string \<Rightarrow> string \<Rightarrow> state \<Rightarrow>
   (exn + (cell \<times> string \<times> cell) option) \<times> string option \<times> string option \<times> state" where
  "process_video_try w file_id file_name folder_path s =
     (case download w file_id s of
        (Inl error, s1) \<Rightarrow> (Inl error, None, None, s1)
      | (Inr content, s1) \<Rightarrow>
          (let temp_video_path = temp_path file_name in
           case write_video w temp_video_path content s1 of
             (Inl error, s2) \<Rightarrow> (Inl error, Some temp_video_path, None, s2)
           | (Inr u, s2) \<Rightarrow>
               (let fps = video_fps w temp_video_path s2 in
                if fps = Finite 0 then (Inr None, Some temp_video_path, None, s2)
                else
                  (case py_int (float_mul w fps (CAPTURE_TIMESTAMP_SECONDS w)) of
                     Inl error \<Rightarrow> (Inl error, Some temp_video_path, None, s2)
                   | Inr frame_id \<Rightarrow>
                       (case seek_and_read w temp_video_path frame_id s2 of
                          ((success, frame), s3) \<Rightarrow>
                            (case frame of
                               None \<Rightarrow> (Inr None, Some temp_video_path, None, s3)
                             | Some img \<Rightarrow>
                                 if \<not> success then (Inr None, Some temp_video_path, None, s3)
                                 else
                                   (case upload_thumbnail w file_name folder_path img s3 of
                                      (r, thumbnail_path, s4) \<Rightarrow>
                                        (r, Some temp_video_path, thumbnail_path, s4))))))))"

text \<open>One \<^verbatim>\<open>if path and os.path.exists(path): os.remove(path)\<close> of the cleanup.\<close>

definition remove_if_exists :: "world \<Rightarrow> string option \<Rightarrow> state \<Rightarrow> (exn + unit) \<times> state" where
  "remove_if_exists w path s =
     (case path of
        None \<Rightarrow> (Inr (), s)
      | Some p \<Rightarrow>
          if p \<noteq> [] \<and> fs s p \<noteq> None then
            (case os_remove w p of
               Some error \<Rightarrow> (Inl error, s)
             | None \<Rightarrow> (Inr (), (log (FileRemoved p) s)\<lparr>fs := (fs s)(p := None)\<rparr>))
          else (Inr (), s))"

text \<open>The \<^verbatim>\<open>finally\<close> block: both removals inside one \<^verbatim>\<open>try\<close>, whose handler
  \<^verbatim>\<open>except Exception\<close> only prints.\<close>

definition cleanup :: "world \<Rightarrow> string option \<Rightarrow> string option \<Rightarrow> state \<Rightarrow> state" where
  "cleanup w temp_video_path thumbnail_path s =
     (case remove_if_exists w temp_video_path s of
        (Inl cleanup_err, s1) \<Rightarrow> s1
      | (Inr u, s1) \<Rightarrow> snd (remove_if_exists w thumbnail_path s1))"

text \<open>\<^verbatim>\<open>except HttpError\<close>: the function returns \<^verbatim>\<open>None\<close>; any other exception goes on.\<close>

definition except_HttpError :: "'a \<Rightarrow> exn + 'a \<Rightarrow> exn + 'a" where
  "except_HttpError v r = (case r of Inl error \<Rightarrow> if error = HttpError then Inr v else Inl error
                                  | Inr x \<Rightarrow> Inr x)"

definition process_video ::
  "world \<Rightarrow> item \<Rightarrow> string \<Rightarrow> state \<Rightarrow> (exn + (cell \<times> string \<times> cell) option) \<times> state" where
  "process_video w video_file folder_path s =
     (let file_id = item_id video_file; file_name = item_name video_file in
      case process_video_try w file_id file_name folder_path s of
        (r, temp_video_path, thumbnail_path, s1) \<Rightarrow>
          (except_HttpError None r, cleanup w temp_video_path thumbnail_path s1))"

section \<open>traverse_folder\<close>

text \<open>\<^verbatim>\<open>list(data_row)\<close> of the tuple \<^verbatim>\<open>process_video\<close> returns.\<close>

definition cells :: "cell \<times> string \<times> cell \<Rightarrow> row" where
  "cells t = (case t of (thumbnail_name, original_path, link) \<Rightarrow>
                [thumbnail_name, Some original_path, link])"

text \<open>
  The recursion follows the remote folder graph, which the source does not bound; the
  first argument bounds the depth, and \<open>None\<close> means that the bound was reached.
  \<open>traverse_items\<close> is the \<^verbatim>\<open>for item in items\<close> loop. The source makes one listing request
  for a folder, without a page token.
\<close>

fun traverse_folder :: "nat \<Rightarrow> world \<Rightarrow> string \<Rightarrow> string \<Rightarrow> state \<Rightarrow> ((exn + unit) \<times> state) option"
  and traverse_items :: "nat \<Rightarrow> world \<Rightarrow> item list \<Rightarrow> string \<Rightarrow> state \<Rightarrow> ((exn + unit) \<times> state) option"
where
  "traverse_folder 0 w folder_id current_path s = None"
| "traverse_folder (Suc n) w folder_id current_path s =
     (let s1 = log (ListCall folder_id None) s in
      case files_list w folder_id None of
        Inl error \<Rightarrow> Some (except_HttpError () (Inl error), s1)
      | Inr results \<Rightarrow>
          (case traverse_items n w (case files results of None \<Rightarrow> [] | Some xs \<Rightarrow> xs)
                  current_path s1 of
             None \<Rightarrow> None
           | Some (r, s2) \<Rightarrow> Some (except_HttpError () r, s2)))"
| "traverse_items n w [] current_path s = Some (Inr (), s)"
| "traverse_items n w (item # items) current_path s =
     (let item_path = current_path @ ''/'' @ item_name item;
          mime = (case mimeType item of None \<Rightarrow> [] | Some m \<Rightarrow> m) in
      if mime = ''application/vnd.google-apps.folder'' then
        (case traverse_folder n w (item_id item) item_path s of
           None \<Rightarrow> None
         | Some (Inl error, s1) \<Rightarrow> Some (Inl error, s1)
         | Some (Inr u, s1) \<Rightarrow> traverse_items n w items current_path s1)
      else if prefix ''video/'' mime then
        (case process_video w item current_path s of
           (Inl error, s1) \<Rightarrow> Some (Inl error, s1)
         | (Inr log_data, s1) \<Rightarrow>
             (case append_to_sheet w (map_option cells log_data) s1 of
                (Inl error, s2) \<Rightarrow> Some (Inl error, s2)
              | (Inr u, s2) \<Rightarrow> traverse_items n w items current_path s2))
      else traverse_items n w items current_path s)"

section \<open>Notions used in the statements\<close>

text \<open>The waits among a sequence of events, in order.\<close>

fun sleeps :: "event list \<Rightarrow> nat list" where
  "sleeps [] = []"
| "sleeps (Sleep n # es) = n # sleeps es"
| "sleeps (e # es) = sleeps es"

text \<open>
  The events of a run of the retry loop that starts at attempt index \<open>a\<close> and makes its
  last request as attempt number \<open>m\<close>: each request but the last is followed by a wait
  of \<open>2 ^ (k + 1)\<close> where \<open>k\<close> is the index of the attempt.
\<close>

definition retry_events :: "row \<Rightarrow> nat \<Rightarrow> nat \<Rightarrow> event list" where
  "retry_events data_row a m =
     concat (map (\<lambda>k. [AppendCall data_row, Sleep (2 ^ (k + 1))]) [a..<m - 1]) @ [AppendCall data_row]"

text \<open>The events a call added, given the states before and after it.\<close>

definition new_events :: "state \<Rightarrow> state \<Rightarrow> event list" where
  "new_events s s' = drop (length (events s)) (events s')"

text \<open>The local files after an event, given the files before it.\<close>

definition fs_step :: "event \<Rightarrow> string set \<Rightarrow> string set" where
  "fs_step e L = (case e of FileCreated p \<Rightarrow> insert p L | FileRemoved p \<Rightarrow> L - {p} | _ \<Rightarrow> L)"

text \<open>The local files after a sequence of events.\<close>

fun live_files :: "event list \<Rightarrow> string set \<Rightarrow> string set" where
  "live_files [] L = L"
| "live_files (e # es) L = live_files es (fs_step e L)"

text \<open>The local files stay within a set before, between and after the events.\<close>

fun always_within :: "string set \<Rightarrow> event list \<Rightarrow> string set \<Rightarrow> bool" where
  "always_within B [] L = (L \<subseteq> B)"
| "always_within B (e # es) L = (L \<subseteq> B \<and> always_within B es (fs_step e L))"

text \<open>A call took the state \<open>s\<close> to \<open>s'\<close> by adding events that account for every change of
  the local files, which stayed within \<open>B\<close> throughout.\<close>

definition follows :: "string set \<Rightarrow> state \<Rightarrow> state \<Rightarrow> bool" where
  "follows B s s' \<longleftrightarrow>
     (\<exists>new. events s' = events s @ new \<and> dom (fs s') = live_files new (dom (fs s)) \<and>
            always_within B new (dom (fs s)))"

text \<open>Moreover the call left behind no file outside \<open>C\<close> that was not there before, and
  created files of \<open>C\<close> only.\<close>

definition stage_ok :: "string set \<Rightarrow> string set \<Rightarrow> state \<Rightarrow> state \<Rightarrow> bool" where
  "stage_ok B C s s' \<longleftrightarrow>
     follows B s s' \<and> dom (fs s') \<subseteq> dom (fs s) \<union> C \<and>
     (\<forall>p. FileCreated p \<in> set (new_events s s') \<longrightarrow> p \<in> C)"

text \<open>
  A run from \<open>s\<close> to \<open>s'\<close> kept the local disk tidy: its events account for the files, it
  left no file behind that was not there before, and at every moment the files it had
  added were among the temporary video and the temporary thumbnail of one video.
\<close>

definition tidy :: "state \<Rightarrow> state \<Rightarrow> bool" where
  "tidy s s' \<longleftrightarrow>
     events s' = events s @ new_events s s' \<and>
     dom (fs s') = live_files (new_events s s') (dom (fs s)) \<and>
     dom (fs s') \<subseteq> dom (fs s) \<and>
     (\<forall>k. \<exists>file_name. live_files (take k (new_events s s')) (dom (fs s)) \<subseteq>
        dom (fs s) \<union> {temp_path file_name, temp_path (thumbnail_name_of file_name)})"

text \<open>The two kinds of entry the walker acts on.\<close>

definition is_folder :: "item \<Rightarrow> bool" where
  "is_folder item \<longleftrightarrow> mimeType item = Some ''application/vnd.google-apps.folder''"

definition is_video :: "item \<Rightarrow> bool" where
  "is_video item \<longleftrightarrow> (case mimeType item of None \<Rightarrow> False | Some m \<Rightarrow> prefix ''video/'' m)"

text \<open>
  The only exceptions the environment raises are \<open>HttpError\<close> from the Drive requests
  (listing, download, upload) and the exceptions the retry loop catches from the append
  requests; local file operations succeed, and the product of every frame rate with the
  capture timestamp is finite, so that \<^verbatim>\<open>int()\<close> does not raise.
\<close>

definition raises_only_HttpError :: "world \<Rightarrow> bool" where
  "raises_only_HttpError w \<longleftrightarrow>
     (\<forall>folder_id page_token e. files_list w folder_id page_token = Inl e \<longrightarrow> e = HttpError) \<and>
     (\<forall>file_id e. Inl e \<in> set (get_media w file_id) \<longrightarrow> e = HttpError) \<and>
     (\<forall>metadata media e. files_create w metadata media = Inl e \<longrightarrow> e = HttpError) \<and>
     (\<forall>path. fs_open_wb w path = None \<and> fs_write w path = None \<and> cv_imwrite w path) \<and>
     (\<forall>content. \<exists>p. float_mul w (cap_fps w content) (CAPTURE_TIMESTAMP_SECONDS w) = Finite p) \<and>
     (\<forall>k data_row e. values_append w k data_row = Some e \<longrightarrow> transient e)"

text \<open>The folders below a folder are nested less than \<open>n\<close> deep (a folder whose listing
  fails has nothing below it).\<close>

fun within_depth :: "nat \<Rightarrow> world \<Rightarrow> string \<Rightarrow> bool" where
  "within_depth 0 w folder_id = False"
| "within_depth (Suc n) w folder_id =
     (case files_list w folder_id None of
        Inl e \<Rightarrow> True
      | Inr results \<Rightarrow>
          (\<forall>item \<in> set (case files results of None \<Rightarrow> [] | Some xs \<Rightarrow> xs).
             is_folder item \<longrightarrow> within_depth n w (item_id item)))"

text \<open>A call only added events to the log.\<close>

definition extends :: "state \<Rightarrow> state \<Rightarrow> bool" where
  "extends s s' \<longleftrightarrow> (\<exists>new. events s' = events s @ new)"

text \<open>Two calls, one from \<open>s\<close> to \<open>s'\<close> and one from \<open>t\<close> to \<open>t'\<close>, uploaded the same files and
  wrote the same rows.\<close>

definition same_increment :: "state \<Rightarrow> state \<Rightarrow> state \<Rightarrow> state \<Rightarrow> bool" where
  "same_increment s s' t t' \<longleftrightarrow>
     (\<exists>uploads rows.
        drive_uploaded s' = drive_uploaded s @ uploads \<and>
        drive_uploaded t' = drive_uploaded t @ uploads \<and>
        sheet s' = sheet s @ rows \<and> sheet t' = sheet t @ rows)"

text \<open>The answers of the services do not change between two runs: the sheet answers an
  append request in the same way whenever it arrives, and the thumbnail file can be
  written.\<close>

definition stable_services :: "world \<Rightarrow> bool" where
  "stable_services w \<longleftrightarrow>
     (\<forall>k k' data_row. values_append w k data_row = values_append w k' data_row) \<and>
     (\<forall>path. cv_imwrite w path)"

text \<open>The entries the walker gets for a folder: those of the first page of its listing,
  and none when the listing request fails.\<close>

definition listing :: "world \<Rightarrow> string \<Rightarrow> item list" where
  "listing w folder_id =
     (case files_list w folder_id None of
        Inl e \<Rightarrow> []
      | Inr results \<Rightarrow> (case files results of None \<Rightarrow> [] | Some xs \<Rightarrow> xs))"

text \<open>A chain of nested folders below a folder: each one is a folder entry of the listing
  of the one before, the first of the listing of the folder itself.\<close>

fun folder_chain :: "world \<Rightarrow> string \<Rightarrow> item list \<Rightarrow> bool" where
  "folder_chain w folder_id [] = True"
| "folder_chain w folder_id (d # ds) =
     (d \<in> set (listing w folder_id) \<and> is_folder d \<and> folder_chain w (item_id d) ds)"

text \<open>The folder a chain leads to.\<close>

definition chain_end :: "string \<Rightarrow> item list \<Rightarrow> string" where
  "chain_end folder_id ds = (if ds = [] then folder_id else item_id (last ds))"

text \<open>A path followed by the display names of the folders of a chain, joined by slashes.\<close>

definition joined_path :: "string \<Rightarrow> item list \<Rightarrow> string" where
  "joined_path path ds = path @ concat (map (\<lambda>d. ''/'' @ item_name d) ds)"

text \<open>
  Between the states \<open>s\<close> and \<open>s'\<close> of a walk, \<open>process_video\<close> was called for the video with
  the given path and returned, its result was handed to \<open>append_to_sheet\<close>, which returned,
  and the sheet kept every row it held after that call.
\<close>

definition processed :: "world \<Rightarrow> item \<Rightarrow> string \<Rightarrow> state \<Rightarrow> state \<Rightarrow> bool" where
  "processed w v path s s' \<longleftrightarrow>
     (\<exists>t log_data t1 t2.
        extends s t \<and> process_video w v path t = (Inr log_data, t1) \<and>
        append_to_sheet w (map_option cells log_data) t1 = (Inr (), t2) \<and>
        extends t2 s' \<and> (\<exists>rows. sheet s' = sheet t2 @ rows))"

section \<open>Example environments\<close>

text \<open>
  The scenario of the specification: the root folder holds a folder \<^verbatim>\<open>Clips\<close>, which holds
  the video \<^verbatim>\<open>a.mp4\<close> (30 frames per second) and the file \<^verbatim>\<open>notes.txt\<close>; the capture
  timestamp is 2 seconds and every service call succeeds. The other environments change
  one behaviour of it.
\<close>

text \<open>
  The products the examples need. Double-precision multiplication gives the exact product
  whenever that product is itself a double, which is so for every pair of finite operands
  the examples multiply (30 and 2, 25 and -0.5); an infinite operand gives an infinity
  (a NaN when the other operand is 0), and a NaN gives a NaN.
\<close>

definition example_mul :: "pyfloat \<Rightarrow> pyfloat \<Rightarrow> pyfloat" where
  "example_mul x y =
     (case x of
        Finite a \<Rightarrow>
          (case y of Finite b \<Rightarrow> Finite (a * b)
                   | Infinite \<Rightarrow> if a = 0 then NaN else Infinite
                   | NaN \<Rightarrow> NaN)
      | Infinite \<Rightarrow>
          (case y of Finite b \<Rightarrow> if b = 0 then NaN else Infinite
                   | Infinite \<Rightarrow> Infinite
                   | NaN \<Rightarrow> NaN)
      | NaN \<Rightarrow> NaN)"

definition demo_state :: state where
  "demo_state = \<lparr>fs = Map.empty, drive_uploaded = [], sheet = [], append_requests = 0, events = []\<rparr>"

definition demo_world :: world where
  "demo_world =
     \<lparr>THUMBNAIL_FOLDER_ID = ''thumbs'',
      CAPTURE_TIMESTAMP_SECONDS = Finite 2,
      float_mul = example_mul,
      files_list = (\<lambda>folder_id page_token.
         if folder_id = ''root'' \<and> page_token = None then
           Inr \<lparr>files = Some [\<lparr>item_id = ''c'', item_name = ''Clips'',
                                mimeType = Some ''application/vnd.google-apps.folder''\<rparr>],
                nextPageToken = None\<rparr>
         else if folder_id = ''c'' \<and> page_token = None then
           Inr \<lparr>files = Some [\<lparr>item_id = ''a'', item_name = ''a.mp4'', mimeType = Some ''video/mp4''\<rparr>,
                               \<lparr>item_id = ''n'', item_name = ''notes.txt'', mimeType = Some ''text/plain''\<rparr>],
                nextPageToken = None\<rparr>
         else Inl HttpError),
      get_media = (\<lambda>file_id. [Inr ''ab'', Inr ''cd'']),
      fs_open_wb = (\<lambda>path. None),
      fs_write = (\<lambda>path. None),
      cap_fps = (\<lambda>content. Finite 30),
      cap_read = (\<lambda>content frame_id. (True, Some ''jpeg'')),
      cv_imwrite = (\<lambda>path. True),
      files_create = (\<lambda>metadata media.
         Inr \<lparr>up_id = Some ''t1'', up_name = Some (md_name metadata), webViewLink = Some ''link''\<rparr>),
      os_remove = (\<lambda>path. None),
      values_append = (\<lambda>k data_row. None)\<rparr>"

definition demo_row :: row where
  "demo_row = [Some ''a_Thumbnail.jpg'', Some ''<root>/Clips'', Some ''link'']"

definition flaky_sheet_world :: world where
  "flaky_sheet_world =
     demo_world\<lparr>values_append := (\<lambda>k data_row. if k < 4 then Some HttpError else None)\<rparr>"

definition failing_sheet_world :: world where
  "failing_sheet_world = demo_world\<lparr>values_append := (\<lambda>k data_row. Some TimeoutError)\<rparr>"

definition demo_video :: item where
  "demo_video = \<lparr>item_id = ''a'', item_name = ''a.mp4'', mimeType = Some ''video/mp4''\<rparr>"

text \<open>OpenCV reports no frame rate.\<close>

definition zero_fps_world :: world where
  "zero_fps_world = demo_world\<lparr>cap_fps := (\<lambda>content. Finite 0)\<rparr>"

text \<open>A capture timestamp of -0.5 seconds (the environment variable accepts any float) and
  videos of 25 frames per second.\<close>

definition negative_timestamp_world :: world where
  "negative_timestamp_world =
     demo_world\<lparr>CAPTURE_TIMESTAMP_SECONDS := Finite (- (1 / 2)),
                cap_fps := (\<lambda>content. Finite 25)\<rparr>"

text \<open>The capture timestamp is \<^verbatim>\<open>inf\<close>, and \<^verbatim>\<open>nan\<close>: both are values \<^verbatim>\<open>float()\<close> accepts.\<close>

definition infinite_timestamp_world :: world where
  "infinite_timestamp_world = demo_world\<lparr>CAPTURE_TIMESTAMP_SECONDS := Infinite\<rparr>"

definition nan_timestamp_world :: world where
  "nan_timestamp_world = demo_world\<lparr>CAPTURE_TIMESTAMP_SECONDS := NaN\<rparr>"

text \<open>Every deletion is refused.\<close>

definition locked_files_world :: world where
  "locked_files_world = demo_world\<lparr>os_remove := (\<lambda>path. Some OSError)\<rparr>"

text \<open>The folder entry of the scenario.\<close>

definition demo_folder :: item where
  "demo_folder = \<lparr>item_id = ''c'', item_name = ''Clips'',
                  mimeType = Some ''application/vnd.google-apps.folder''\<rparr>"

text \<open>
  A root folder whose listing has two pages: the first answer holds the video \<^verbatim>\<open>v1.mp4\<close>
  and the token of the next page, and the answer for that token holds \<^verbatim>\<open>v2.mp4\<close>.
\<close>

definition paged_world :: world where
  "paged_world =
     demo_world\<lparr>files_list := (\<lambda>folder_id page_token.
        if folder_id = ''root'' \<and> page_token = None then
          Inr \<lparr>files = Some [\<lparr>item_id = ''v1'', item_name = ''v1.mp4'', mimeType = Some ''video/mp4''\<rparr>],
               nextPageToken = Some ''page2''\<rparr>
        else if folder_id = ''root'' \<and> page_token = Some ''page2'' then
          Inr \<lparr>files = Some [\<lparr>item_id = ''v2'', item_name = ''v2.mp4'', mimeType = Some ''video/mp4''\<rparr>],
               nextPageToken = None\<rparr>
        else Inl HttpError)\<rparr>"

text \<open>The root folder holds two videos, \<^verbatim>\<open>a.mp4\<close> and \<^verbatim>\<open>b.mp4\<close>.\<close>

definition two_videos_world :: world where
  "two_videos_world =
     demo_world\<lparr>files_list := (\<lambda>folder_id page_token.
        if folder_id = ''root'' \<and> page_token = None then
          Inr \<lparr>files = Some [\<lparr>item_id = ''a'', item_name = ''a.mp4'', mimeType = Some ''video/mp4''\<rparr>,
                              \<lparr>item_id = ''b'', item_name = ''b.mp4'', mimeType = Some ''video/mp4''\<rparr>],
               nextPageToken = None\<rparr>
        else Inl HttpError)\<rparr>"

text \<open>The download of \<^verbatim>\<open>a.mp4\<close>, the first of the two videos, times out.\<close>

definition timeout_world :: world where
  "timeout_world =
     two_videos_world\<lparr>get_media := (\<lambda>file_id.
        if file_id = ''a'' then [Inl TimeoutError] else [Inr ''ab'', Inr ''cd''])\<rparr>"

text \<open>
  The root folder holds a folder whose listing fails, a video whose download fails, a
  video whose upload fails and a video for which everything works; each failure is an
  \<open>HttpError\<close>.
\<close>

definition http_errors_items :: "item list" where
  "http_errors_items =
     [\<lparr>item_id = ''bad'', item_name = ''bad'', mimeType = Some ''application/vnd.google-apps.folder''\<rparr>,
      \<lparr>item_id = ''a'', item_name = ''a.mp4'', mimeType = Some ''video/mp4''\<rparr>,
      \<lparr>item_id = ''u'', item_name = ''u.mp4'', mimeType = Some ''video/mp4''\<rparr>,
      \<lparr>item_id = ''b'', item_name = ''b.mp4'', mimeType = Some ''video/mp4''\<rparr>]"

definition http_errors_world :: world where
  "http_errors_world =
     demo_world\<lparr>
       files_list := (\<lambda>folder_id page_token.
         if folder_id = ''root'' \<and> page_token = None
         then Inr \<lparr>files = Some http_errors_items, nextPageToken = None\<rparr>
         else Inl HttpError),
       get_media := (\<lambda>file_id.
         if file_id = ''a'' then [Inr ''ab'', Inl HttpError] else [Inr ''ab'', Inr ''cd'']),
       files_create := (\<lambda>metadata media.
         if md_name metadata = ''u_Thumbnail.jpg'' then Inl HttpError
         else Inr \<lparr>up_id = Some ''t1'', up_name = Some (md_name metadata),
                   webViewLink = Some ''link''\<rparr>)\<rparr>"

text \<open>
  Folders nested two deep: the root folder holds \<^verbatim>\<open>Clips\<close>, which holds the folder
  \<^verbatim>\<open>2024\<close>, which holds the video \<^verbatim>\<open>trip.day1.mov\<close>.
\<close>

definition year_folder :: item where
  "year_folder = \<lparr>item_id = ''y'', item_name = ''2024'',
                  mimeType = Some ''application/vnd.google-apps.folder''\<rparr>"

definition trip_video :: item where
  "trip_video = \<lparr>item_id = ''t'', item_name = ''trip.day1.mov'',
                 mimeType = Some ''video/quicktime''\<rparr>"

definition nested_world :: world where
  "nested_world =
     demo_world\<lparr>files_list := (\<lambda>folder_id page_token.
        if folder_id = ''root'' \<and> page_token = None then
          Inr \<lparr>files = Some [demo_folder], nextPageToken = None\<rparr>
        else if folder_id = ''c'' \<and> page_token = None then
          Inr \<lparr>files = Some [year_folder], nextPageToken = None\<rparr>
        else if folder_id = ''y'' \<and> page_token = None then
          Inr \<lparr>files = Some [trip_video], nextPageToken = None\<rparr>
        else Inl HttpError)\<rparr>"

section \<open>The retry loop of append_to_sheet\<close>

declare append_attempts.simps [simp del]

lemma append_attempts_success:
  "attempt < max_retries \<Longrightarrow> values_append w (append_requests s) data_row = None \<Longrightarrow>
   append_attempts w data_row attempt b s =
     (Inr (), s\<lparr>sheet := sheet s @ [data_row],
                append_requests := append_requests s + 1,
                events := events s @ [AppendCall data_row]\<rparr>)"
  by (subst append_attempts.simps) (simp add: log_def)

lemma append_attempts_retry:
  "attempt + 1 < max_retries \<Longrightarrow> values_append w (append_requests s) data_row = Some e \<Longrightarrow>
   transient e \<Longrightarrow>
   append_attempts w data_row attempt b s =
     append_attempts w data_row (attempt + 1) (b * 2)
       (s\<lparr>append_requests := append_requests s + 1,
          events := events s @ [AppendCall data_row, Sleep b]\<rparr>)"
  by (subst append_attempts.simps) (simp add: log_def)

lemma append_attempts_give_up:
  "attempt + 1 = max_retries \<Longrightarrow> values_append w (append_requests s) data_row = Some e \<Longrightarrow>
   transient e \<Longrightarrow>
   append_attempts w data_row attempt b s =
     (Inr (), s\<lparr>append_requests := append_requests s + 1,
                events := events s @ [AppendCall data_row]\<rparr>)"
  by (subst append_attempts.simps) (simp add: log_def)

lemma append_attempts_raise:
  "attempt < max_retries \<Longrightarrow> values_append w (append_requests s) data_row = Some e \<Longrightarrow>
   \<not> transient e \<Longrightarrow>
   append_attempts w data_row attempt b s =
     (Inl e, s\<lparr>append_requests := append_requests s + 1,
               events := events s @ [AppendCall data_row]\<rparr>)"
  by (subst append_attempts.simps) (simp add: log_def)

lemma retry_events_last: "a < m \<Longrightarrow> m = Suc a \<Longrightarrow> retry_events r a m = [AppendCall r]"
  by (simp add: retry_events_def)

lemma retry_events_step:
  "Suc a < m \<Longrightarrow> retry_events r a m = [AppendCall r, Sleep (2 ^ (a + 1))] @ retry_events r (Suc a) m"
  by (simp add: retry_events_def upt_conv_Cons)

lemma append_attempts_shape:
  "attempt < max_retries \<Longrightarrow> append_attempts w data_row attempt (2 ^ (attempt + 1)) s = (r, s') \<Longrightarrow>
   \<exists>m. attempt < m \<and> m \<le> max_retries \<and>
       events s' = events s @ retry_events data_row attempt m \<and>
       append_requests s' = append_requests s + (m - attempt) \<and>
       (sheet s' = sheet s \<or> sheet s' = sheet s @ [data_row]) \<and>
       fs s' = fs s \<and> drive_uploaded s' = drive_uploaded s"
proof (induction "max_retries - attempt" arbitrary: attempt s)
  case 0
  then show ?case by simp
next
  case (Suc d)
  show ?case
  proof (cases "values_append w (append_requests s) data_row")
    case None
    with Suc.prems have "s' = s\<lparr>sheet := sheet s @ [data_row],
                append_requests := append_requests s + 1,
                events := events s @ [AppendCall data_row]\<rparr>"
      by (simp add: append_attempts_success)
    with Suc.prems show ?thesis
      by (intro exI [of _ "Suc attempt"]) (simp add: retry_events_last)
  next
    case (Some e)
    show ?thesis
    proof (cases "transient e")
      case False
      with Some Suc.prems have "s' = s\<lparr>append_requests := append_requests s + 1,
               events := events s @ [AppendCall data_row]\<rparr>"
        by (simp add: append_attempts_raise)
      with Suc.prems show ?thesis
        by (intro exI [of _ "Suc attempt"]) (simp add: retry_events_last)
    next
      case True
      show ?thesis
      proof (cases "attempt + 1 = max_retries")
        case True
        with Some \<open>transient e\<close> Suc.prems have "s' = s\<lparr>append_requests := append_requests s + 1,
               events := events s @ [AppendCall data_row]\<rparr>"
          by (simp add: append_attempts_give_up)
        with Suc.prems show ?thesis
          by (intro exI [of _ "Suc attempt"]) (simp add: retry_events_last)
      next
        case False
        with Suc.prems have lt: "attempt + 1 < max_retries" by simp
        let ?s1 = "s\<lparr>append_requests := append_requests s + 1,
          events := events s @ [AppendCall data_row, Sleep (2 ^ (attempt + 1))]\<rparr>"
        from Some True lt Suc.prems
        have run: "append_attempts w data_row (attempt + 1) (2 ^ (attempt + 1 + 1)) ?s1 = (r, s')"
          by (simp add: append_attempts_retry mult.commute)
        from Suc.hyps(2) have d: "d = max_retries - (attempt + 1)" by simp
        from Suc.hyps(1) [OF d lt run] obtain m where m:
          "attempt + 1 < m" "m \<le> max_retries"
          "events s' = events ?s1 @ retry_events data_row (attempt + 1) m"
          "append_requests s' = append_requests ?s1 + (m - (attempt + 1))"
          "sheet s' = sheet ?s1 \<or> sheet s' = sheet ?s1 @ [data_row]"
          "fs s' = fs ?s1" "drive_uploaded s' = drive_uploaded ?s1"
          by blast
        from m show ?thesis
          by (intro exI [of _ m]) (simp add: retry_events_step)
      qed
    qed
  qed
qed

lemma append_attempts_fail_from:
  assumes "\<forall>k<5. \<exists>e. values_append w (append_requests s + k) data_row = Some e \<and> transient e"
  shows "append_attempts w data_row 0 2 s =
           (Inr (), s\<lparr>append_requests := append_requests s + 5,
                      events := events s @ [AppendCall data_row, Sleep 2, AppendCall data_row, Sleep 4,
                         AppendCall data_row, Sleep 8, AppendCall data_row, Sleep 16,
                         AppendCall data_row]\<rparr>)"
proof -
  have ex: "\<exists>e. values_append w (append_requests s + k) data_row = Some e \<and> transient e"
    if "k < 5" for k using assms that by blast
  from ex [of 0] obtain e0 where
    e0: "values_append w (append_requests s) data_row = Some e0" "transient e0" by auto
  from ex [of 1] obtain e1 where
    e1: "values_append w (Suc (append_requests s)) data_row = Some e1" "transient e1" by auto
  from ex [of 2] obtain e2 where
    e2: "values_append w (Suc (Suc (append_requests s))) data_row = Some e2" "transient e2" by auto
  from ex [of 3] obtain e3 where
    e3: "values_append w (Suc (Suc (Suc (append_requests s)))) data_row = Some e3" "transient e3"
    by (auto simp: numeral_3_eq_3)
  from ex [of 4] obtain e4 where
    e4: "values_append w (Suc (Suc (Suc (Suc (append_requests s))))) data_row = Some e4" "transient e4"
    by (auto simp: numeral_Bit0 numeral_eq_Suc)
  show ?thesis
    apply (subst append_attempts_retry [where e = e0])
       apply (simp_all add: max_retries_def e0)
    apply (subst append_attempts_retry [where e = e1])
       apply (simp_all add: max_retries_def e1)
    apply (subst append_attempts_retry [where e = e2])
       apply (simp_all add: max_retries_def e2)
    apply (subst append_attempts_retry [where e = e3])
       apply (simp_all add: max_retries_def e3)
    apply (subst append_attempts_give_up [where e = e4])
       apply (simp_all add: max_retries_def e4)
    done
qed

lemma append_attempts_fifth_succeeds:
  assumes "\<forall>k<4. \<exists>e. values_append w (append_requests s + k) data_row = Some e \<and> transient e"
    and ok: "values_append w (append_requests s + 4) data_row = None"
  shows "append_attempts w data_row 0 2 s =
           (Inr (), s\<lparr>sheet := sheet s @ [data_row],
                      append_requests := append_requests s + 5,
                      events := events s @ [AppendCall data_row, Sleep 2, AppendCall data_row, Sleep 4,
                         AppendCall data_row, Sleep 8, AppendCall data_row, Sleep 16,
                         AppendCall data_row]\<rparr>)"
proof -
  have ex: "\<exists>e. values_append w (append_requests s + k) data_row = Some e \<and> transient e"
    if "k < 4" for k using assms that by blast
  from ex [of 0] obtain e0 where
    e0: "values_append w (append_requests s) data_row = Some e0" "transient e0" by auto
  from ex [of 1] obtain e1 where
    e1: "values_append w (Suc (append_requests s)) data_row = Some e1" "transient e1" by auto
  from ex [of 2] obtain e2 where
    e2: "values_append w (Suc (Suc (append_requests s))) data_row = Some e2" "transient e2" by auto
  from ex [of 3] obtain e3 where
    e3: "values_append w (Suc (Suc (Suc (append_requests s)))) data_row = Some e3" "transient e3"
    by (auto simp: numeral_3_eq_3)
  from ok have e4: "values_append w (Suc (Suc (Suc (Suc (append_requests s))))) data_row = None"
    by (simp add: numeral_Bit0 numeral_eq_Suc)
  show ?thesis
    apply (subst append_attempts_retry [where e = e0])
       apply (simp_all add: max_retries_def e0)
    apply (subst append_attempts_retry [where e = e1])
       apply (simp_all add: max_retries_def e1)
    apply (subst append_attempts_retry [where e = e2])
       apply (simp_all add: max_retries_def e2)
    apply (subst append_attempts_retry [where e = e3])
       apply (simp_all add: max_retries_def e3)
    apply (subst append_attempts_success)
       apply (simp_all add: max_retries_def e4)
    done
qed

lemma retry_events_counts:
  assumes "a < m"
  shows "length (filter (\<lambda>e. e = AppendCall r) (retry_events r a m)) = m - a"
    and "sleeps (retry_events r a m) = map (\<lambda>k. 2 ^ (k + 1)) [a..<m - 1]"
proof -
  have 1: "length (filter (\<lambda>e. e = AppendCall r)
             (concat (map (\<lambda>k. [AppendCall r, Sleep (g k)]) ks) @ [AppendCall r])) = Suc (length ks)"
    for ks and g :: "nat \<Rightarrow> nat"
    by (induction ks) simp_all
  have 2: "sleeps (concat (map (\<lambda>k. [AppendCall r, Sleep (g k)]) ks) @ [AppendCall r]) = map g ks"
    for ks and g :: "nat \<Rightarrow> nat"
    by (induction ks) simp_all
  from assms show "length (filter (\<lambda>e. e = AppendCall r) (retry_events r a m)) = m - a"
    unfolding retry_events_def 1 by simp
  show "sleeps (retry_events r a m) = map (\<lambda>k. 2 ^ (k + 1)) [a..<m - 1]"
    unfolding retry_events_def by (rule 2)
qed

lemma backoff_waits:
  assumes "1 \<le> m" "m \<le> 5"
  shows "map (\<lambda>k. 2 ^ (k + 1)) [0..<m - 1] = take (m - 1) [2, 4, 8, 16 :: nat]"
proof -
  from assms have "m = 1 \<or> m = 2 \<or> m = 3 \<or> m = 4 \<or> m = 5" by arith
  then show ?thesis by (elim disjE) (simp_all add: upt_conv_Cons)
qed

text \<open>
  Claim C2. For a non-empty row, \<open>append_to_sheet\<close> sends between one and five append
  requests, and each request but the last is followed by a wait of 2, 4, 8, 16 seconds in
  turn. When the first four requests fail with a caught exception (\<open>HttpError\<close>,
  \<open>TimeoutError\<close>, \<open>SocketTimeout\<close>) and the fifth succeeds, the row is written and the
  waits are 2, 4, 8, 16, in total 30. When all five fail so, the sheet is unchanged, the
  last event is the fifth request (no wait follows it) and the call returns normally.
\<close>

theorem append_to_sheet_retry_policy:
  "data_row \<noteq> [] \<Longrightarrow> append_to_sheet w (Some data_row) s = (r, s') \<Longrightarrow>
   (\<exists>m. 1 \<le> m \<and> m \<le> 5 \<and> events s' = events s @ retry_events data_row 0 m \<and>
        length (filter (\<lambda>e. e = AppendCall data_row) (new_events s s')) = m \<and>
        sleeps (new_events s s') = take (m - 1) [2, 4, 8, 16]) \<and>
   ((\<forall>k<4. \<exists>e. values_append w (append_requests s + k) data_row = Some e \<and> transient e) \<and>
    values_append w (append_requests s + 4) data_row = None \<longrightarrow>
      r = Inr () \<and> sheet s' = sheet s @ [data_row] \<and>
      sleeps (new_events s s') = [2, 4, 8, 16] \<and> sum_list (sleeps (new_events s s')) = 30) \<and>
   ((\<forall>k<5. \<exists>e. values_append w (append_requests s + k) data_row = Some e \<and> transient e) \<longrightarrow>
      r = Inr () \<and> sheet s' = sheet s \<and>
      new_events s s' = [AppendCall data_row, Sleep 2, AppendCall data_row, Sleep 4,
                         AppendCall data_row, Sleep 8, AppendCall data_row, Sleep 16,
                         AppendCall data_row])"
proof (intro conjI impI)
  assume row: "data_row \<noteq> []" and run: "append_to_sheet w (Some data_row) s = (r, s')"
  from row run have loop: "append_attempts w data_row 0 (2 ^ (0 + 1)) s = (r, s')"
    by (simp add: append_to_sheet_def)
  have "0 < max_retries" by (simp add: max_retries_def)
  from append_attempts_shape [OF this loop] obtain m where
    "0 < m" "m \<le> max_retries" "events s' = events s @ retry_events data_row 0 m"
    by blast
  then have m: "1 \<le> m" "m \<le> 5" "new_events s s' = retry_events data_row 0 m"
    by (simp_all add: max_retries_def new_events_def)
  have "length (filter (\<lambda>e. e = AppendCall data_row) (retry_events data_row 0 m)) = m"
    using retry_events_counts(1) [OF \<open>0 < m\<close>, of data_row] by simp
  moreover have "sleeps (retry_events data_row 0 m) = take (m - 1) [2, 4, 8, 16]"
    unfolding retry_events_counts(2) [OF \<open>0 < m\<close>] by (rule backoff_waits [OF m(1,2)])
  ultimately show "\<exists>m. 1 \<le> m \<and> m \<le> 5 \<and> events s' = events s @ retry_events data_row 0 m \<and>
        length (filter (\<lambda>e. e = AppendCall data_row) (new_events s s')) = m \<and>
        sleeps (new_events s s') = take (m - 1) [2, 4, 8, 16]"
    using m \<open>events s' = events s @ retry_events data_row 0 m\<close>
    by (intro exI [of _ m]) simp
next
  assume row: "data_row \<noteq> []" and run: "append_to_sheet w (Some data_row) s = (r, s')"
    and h: "(\<forall>k<4. \<exists>e. values_append w (append_requests s + k) data_row = Some e \<and> transient e) \<and>
            values_append w (append_requests s + 4) data_row = None"
  from h have "append_attempts w data_row 0 2 s =
           (Inr (), s\<lparr>sheet := sheet s @ [data_row],
                      append_requests := append_requests s + 5,
                      events := events s @ [AppendCall data_row, Sleep 2, AppendCall data_row, Sleep 4,
                         AppendCall data_row, Sleep 8, AppendCall data_row, Sleep 16,
                         AppendCall data_row]\<rparr>)"
    by (intro append_attempts_fifth_succeeds) simp_all
  with row run have r: "r = Inr ()" and s': "s' = s\<lparr>sheet := sheet s @ [data_row],
                      append_requests := append_requests s + 5,
                      events := events s @ [AppendCall data_row, Sleep 2, AppendCall data_row, Sleep 4,
                         AppendCall data_row, Sleep 8, AppendCall data_row, Sleep 16,
                         AppendCall data_row]\<rparr>"
    by (simp_all add: append_to_sheet_def)
  show "r = Inr ()" by (rule r)
  show "sheet s' = sheet s @ [data_row]" by (simp add: s')
  show "sleeps (new_events s s') = [2, 4, 8, 16]" by (simp add: s' new_events_def)
  show "sum_list (sleeps (new_events s s')) = 30" by (simp add: s' new_events_def)
next
  assume row: "data_row \<noteq> []" and run: "append_to_sheet w (Some data_row) s = (r, s')"
    and h: "\<forall>k<5. \<exists>e. values_append w (append_requests s + k) data_row = Some e \<and> transient e"
  from row run append_attempts_fail_from [OF h]
  have r: "r = Inr ()" and s': "s' = s\<lparr>append_requests := append_requests s + 5,
                      events := events s @ [AppendCall data_row, Sleep 2, AppendCall data_row, Sleep 4,
                         AppendCall data_row, Sleep 8, AppendCall data_row, Sleep 16,
                         AppendCall data_row]\<rparr>"
    by (simp_all add: append_to_sheet_def)
  show "r = Inr ()" by (rule r)
  show "sheet s' = sheet s" by (simp add: s')
  show "new_events s s' = [AppendCall data_row, Sleep 2, AppendCall data_row, Sleep 4,
                         AppendCall data_row, Sleep 8, AppendCall data_row, Sleep 16,
                         AppendCall data_row]" by (simp add: s' new_events_def)
qed

text \<open>The two cases at concrete environments: four failures then success, and a sheet
  that always times out.\<close>

theorem append_to_sheet_retry_policy_witness:
  "demo_row \<noteq> [] \<and>
   fst (append_to_sheet flaky_sheet_world (Some demo_row) demo_state) = Inr () \<and>
   sheet (snd (append_to_sheet flaky_sheet_world (Some demo_row) demo_state)) = [demo_row] \<and>
   sum_list (sleeps (new_events demo_state
      (snd (append_to_sheet flaky_sheet_world (Some demo_row) demo_state)))) = 30 \<and>
   fst (append_to_sheet failing_sheet_world (Some demo_row) demo_state) = Inr () \<and>
   sheet (snd (append_to_sheet failing_sheet_world (Some demo_row) demo_state)) = [] \<and>
   sleeps (new_events demo_state
      (snd (append_to_sheet failing_sheet_world (Some demo_row) demo_state))) = [2, 4, 8, 16]"
proof -
  have row: "demo_row \<noteq> []" by (simp add: demo_row_def)
  have flaky:
    "(\<forall>k<4. \<exists>e. values_append flaky_sheet_world (append_requests demo_state + k) demo_row = Some e
         \<and> transient e) \<and>
     values_append flaky_sheet_world (append_requests demo_state + 4) demo_row = None"
    by (simp add: flaky_sheet_world_def demo_state_def transient_def)
  have failing:
    "\<forall>k<5. \<exists>e. values_append failing_sheet_world (append_requests demo_state + k) demo_row = Some e
         \<and> transient e"
    by (simp add: failing_sheet_world_def transient_def)
  from append_to_sheet_retry_policy [OF row prod.collapse [symmetric],
      of flaky_sheet_world demo_state, THEN conjunct2, THEN conjunct1, THEN mp, OF flaky]
  have 1: "fst (append_to_sheet flaky_sheet_world (Some demo_row) demo_state) = Inr () \<and>
   sheet (snd (append_to_sheet flaky_sheet_world (Some demo_row) demo_state)) = [demo_row] \<and>
   sum_list (sleeps (new_events demo_state
      (snd (append_to_sheet flaky_sheet_world (Some demo_row) demo_state)))) = 30"
    by (simp add: demo_state_def)
  from append_to_sheet_retry_policy [OF row prod.collapse [symmetric],
      of failing_sheet_world demo_state, THEN conjunct2, THEN conjunct2, THEN mp, OF failing]
  have 2: "fst (append_to_sheet failing_sheet_world (Some demo_row) demo_state) = Inr () \<and>
   sheet (snd (append_to_sheet failing_sheet_world (Some demo_row) demo_state)) = [] \<and>
   sleeps (new_events demo_state
      (snd (append_to_sheet failing_sheet_world (Some demo_row) demo_state))) = [2, 4, 8, 16]"
    by (simp add: demo_state_def)
  from row 1 2 show ?thesis by simp
qed

section \<open>Basic facts about the stages\<close>

lemma video_mime_not_folder:
  "prefix ''video/'' mime \<Longrightarrow> mime \<noteq> ''application/vnd.google-apps.folder''"
  by (auto simp: prefix_def)

lemma temp_path_nonempty [simp]: "temp_path name \<noteq> []"
  by (simp add: temp_path_def)

lemma write_video_ok:
  "fs_open_wb w path = None \<Longrightarrow> fs_write w path = None \<Longrightarrow>
   write_video w path content s =
     (Inr (), s\<lparr>fs := (fs s)(path \<mapsto> content), events := events s @ [FileCreated path]\<rparr>)"
  by (simp add: write_video_def log_def)

section \<open>Entries without a type\<close>

text \<open>
  Claim C9. An entry whose listing metadata has no \<open>mimeType\<close> gets the empty string as
  its type, which is neither the folder type nor a video type: the loop goes on to the next
  entry in the same state, so the entry is not recursed into, not processed as a video, and
  raises nothing.
\<close>

theorem traverse_items_missing_mimeType:
  "mimeType item = None \<Longrightarrow>
   traverse_items n w (item # items) current_path s = traverse_items n w items current_path s"
  by simp

text \<open>A folder listing that holds only such an entry is walked without any effect.\<close>

theorem traverse_items_missing_mimeType_witness:
  "mimeType \<lparr>item_id = ''x'', item_name = ''x.bin'', mimeType = None\<rparr> = None \<and>
   traverse_items 1 demo_world [\<lparr>item_id = ''x'', item_name = ''x.bin'', mimeType = None\<rparr>]
      ''<root>'' demo_state = Some (Inr (), demo_state)"
  using traverse_items_missing_mimeType
    [of "\<lparr>item_id = ''x'', item_name = ''x.bin'', mimeType = None\<rparr>" 1 demo_world "[]"
        "''<root>''" demo_state]
  by simp

section \<open>A video without a frame rate\<close>

lemma process_video_try_zero_fps:
  assumes "next_chunks (get_media w file_id) [] = Inr content"
    and "fs_open_wb w (temp_path file_name) = None"
    and "fs_write w (temp_path file_name) = None"
    and "cap_fps w content = Finite 0"
  shows "process_video_try w file_id file_name folder_path s =
           (Inr None, Some (temp_path file_name), None,
            s\<lparr>fs := (fs s)(temp_path file_name \<mapsto> content),
              events := events s @ [DownloadCall file_id, FileCreated (temp_path file_name)]\<rparr>)"
  using assms
  by (simp add: process_video_try_def download_def log_def write_video_ok video_fps_def Let_def)

text \<open>
  Claim C6. When the download and the write of the temporary video succeed and OpenCV
  reports the frame rate 0 (its answer also when the rate is unavailable), \<open>process_video\<close>
  returns \<open>None\<close>. Its only events are the one download request, the creation of the
  temporary video and, when the deletion succeeds, its removal: nothing is uploaded and
  nothing is tried again. \<open>append_to_sheet\<close> on that result sends no request, and the loop
  over the folder's entries goes on with the next entry.
\<close>

theorem process_video_zero_fps:
  assumes "next_chunks (get_media w (item_id video_file)) [] = Inr content"
    and "fs_open_wb w (temp_path (item_name video_file)) = None"
    and "fs_write w (temp_path (item_name video_file)) = None"
    and "cap_fps w content = Finite 0"
  shows "\<exists>s'. process_video w video_file folder_path s = (Inr None, s') \<and>
           new_events s s' =
             [DownloadCall (item_id video_file), FileCreated (temp_path (item_name video_file))] @
             (if os_remove w (temp_path (item_name video_file)) = None
              then [FileRemoved (temp_path (item_name video_file))] else []) \<and>
           drive_uploaded s' = drive_uploaded s \<and> sheet s' = sheet s \<and>
           append_to_sheet w (map_option cells None) s' = (Inr (), s') \<and>
           (\<forall>n items mime. mimeType video_file = Some mime \<and> prefix ''video/'' mime \<longrightarrow>
              traverse_items n w (video_file # items) folder_path s =
              traverse_items n w items folder_path s')"
proof -
  let ?tv = "temp_path (item_name video_file)"
  let ?s1 = "s\<lparr>fs := (fs s)(?tv \<mapsto> content),
              events := events s @ [DownloadCall (item_id video_file), FileCreated ?tv]\<rparr>"
  let ?s' = "cleanup w (Some ?tv) None ?s1"
  have run: "process_video w video_file folder_path s = (Inr None, ?s')"
    by (simp add: process_video_def process_video_try_zero_fps [OF assms] except_HttpError_def)
  have ev: "new_events s ?s' = [DownloadCall (item_id video_file), FileCreated ?tv] @
             (if os_remove w ?tv = None then [FileRemoved ?tv] else [])"
    by (simp add: cleanup_def remove_if_exists_def new_events_def log_def split: option.splits)
  have same: "drive_uploaded ?s' = drive_uploaded s" "sheet ?s' = sheet s"
    by (simp_all add: cleanup_def remove_if_exists_def log_def split: option.splits)
  have app: "append_to_sheet w (map_option cells None) ?s' = (Inr (), ?s')"
    by (simp add: append_to_sheet_def)
  have next_item: "traverse_items n w (video_file # items) folder_path s =
              traverse_items n w items folder_path ?s'"
    if "mimeType video_file = Some mime" "prefix ''video/'' mime" for n items mime
    using that video_mime_not_folder [of mime] by (simp add: run app [simplified])
  from run ev same app next_item show ?thesis by blast
qed

text \<open>The scenario's video with a frame rate of 0.\<close>

theorem process_video_zero_fps_witness:
  "next_chunks (get_media zero_fps_world (item_id demo_video)) [] = Inr ''abcd'' \<and>
   cap_fps zero_fps_world ''abcd'' = Finite 0 \<and>
   fst (process_video zero_fps_world demo_video ''<root>/Clips'' demo_state) = Inr None \<and>
   drive_uploaded (snd (process_video zero_fps_world demo_video ''<root>/Clips'' demo_state)) = [] \<and>
   traverse_items 1 zero_fps_world [demo_video] ''<root>/Clips'' demo_state =
     Some (Inr (), snd (process_video zero_fps_world demo_video ''<root>/Clips'' demo_state))"
proof -
  have h: "next_chunks (get_media zero_fps_world (item_id demo_video)) [] = Inr ''abcd''"
    "fs_open_wb zero_fps_world (temp_path (item_name demo_video)) = None"
    "fs_write zero_fps_world (temp_path (item_name demo_video)) = None"
    "cap_fps zero_fps_world ''abcd'' = Finite 0"
    by (simp_all add: zero_fps_world_def demo_world_def)
  have v: "mimeType demo_video = Some ''video/mp4'' \<and> prefix ''video/'' ''video/mp4''"
    by (simp add: demo_video_def)
  from process_video_zero_fps [OF h, of "''<root>/Clips''" demo_state] obtain s' where
    s': "process_video zero_fps_world demo_video ''<root>/Clips'' demo_state = (Inr None, s')"
      "drive_uploaded s' = drive_uploaded demo_state"
      "\<forall>n items mime. mimeType demo_video = Some mime \<and> prefix ''video/'' mime \<longrightarrow>
          traverse_items n zero_fps_world (demo_video # items) ''<root>/Clips'' demo_state =
          traverse_items n zero_fps_world items ''<root>/Clips'' s'"
    by blast
  from s'(3) v have "traverse_items 1 zero_fps_world [demo_video] ''<root>/Clips'' demo_state =
          traverse_items 1 zero_fps_world [] ''<root>/Clips'' s'"
    by blast
  with h s' show ?thesis by (simp add: demo_state_def)
qed

section \<open>The stages of process_video\<close>

lemmas stage_defs = download_def write_video_def video_fps_def seek_and_read_def
  upload_thumbnail_def remove_if_exists_def cleanup_def except_HttpError_def log_def Let_def

text \<open>Nothing before the cleanup asks whether a deletion would fail.\<close>

lemma stages_os_remove [simp]:
  "download (w\<lparr>os_remove := rm\<rparr>) = download w"
  "write_video (w\<lparr>os_remove := rm\<rparr>) = write_video w"
  "video_fps (w\<lparr>os_remove := rm\<rparr>) = video_fps w"
  "seek_and_read (w\<lparr>os_remove := rm\<rparr>) = seek_and_read w"
  "upload_thumbnail (w\<lparr>os_remove := rm\<rparr>) = upload_thumbnail w"
  by (simp_all add: fun_eq_iff stage_defs
      cong: sum.case_cong prod.case_cong option.case_cong if_cong)

lemma process_video_try_os_remove [simp]:
  "process_video_try (w\<lparr>os_remove := rm\<rparr>) file_id file_name folder_path s =
   process_video_try w file_id file_name folder_path s"
  by (simp add: process_video_try_def
      cong: sum.case_cong prod.case_cong option.case_cong if_cong)

lemma process_video_result_os_remove:
  "fst (process_video (w\<lparr>os_remove := rm\<rparr>) video_file folder_path s) =
   fst (process_video w video_file folder_path s)"
  by (simp add: process_video_def split: prod.splits)

lemma upload_thumbnail_keeps_files:
  "upload_thumbnail w file_name folder_path img s = (r, tp, s') \<Longrightarrow> fs s path \<noteq> None \<Longrightarrow>
   fs s' path \<noteq> None"
  by (auto simp: stage_defs split: option.splits sum.splits if_splits)

lemma process_video_try_video_exists:
  assumes "process_video_try w file_id file_name folder_path s = (r, tv, tp, s1)"
    and "next_chunks (get_media w file_id) [] = Inr content"
    and "fs_open_wb w (temp_path file_name) = None"
  shows "tv = Some (temp_path file_name) \<and> fs s1 (temp_path file_name) \<noteq> None"
  using assms
  by (auto simp: process_video_try_def stage_defs dest: upload_thumbnail_keeps_files
      split: option.splits sum.splits if_splits prod.splits)

lemma upload_thumbnail_events:
  "upload_thumbnail w file_name folder_path img s = (r, tp, s') \<Longrightarrow>
   \<exists>new. events s' = events s @ new"
  by (auto simp: stage_defs split: option.splits sum.splits if_splits)

lemma cleanup_events: "\<exists>new. events (cleanup w tv tp s) = events s @ new"
  by (auto simp: stage_defs split: option.splits sum.splits if_splits prod.splits)

lemma new_events_append: "events s' = events s @ new \<Longrightarrow> new_events s s' = new"
  by (simp add: new_events_def)

section \<open>The frame index\<close>

lemma py_int_Finite: "py_int (Finite v) = Inr (if 0 \<le> v then \<lfloor>v\<rfloor> else \<lceil>v\<rceil>)"
  by (simp add: py_int_def)

lemma py_int_raises [simp]: "py_int Infinite = Inl OverflowError" "py_int NaN = Inl ValueError"
  by (simp_all add: py_int_def)

lemma process_video_try_seek:
  assumes "next_chunks (get_media w file_id) [] = Inr content"
    and "fs_open_wb w (temp_path file_name) = None"
    and "fs_write w (temp_path file_name) = None"
    and "cap_fps w content \<noteq> Finite 0"
    and "float_mul w (cap_fps w content) (CAPTURE_TIMESTAMP_SECONDS w) = Finite p"
    and "process_video_try w file_id file_name folder_path s = (r, tv, tp, s1)"
  shows "\<exists>rest. events s1 = events s @
           [DownloadCall file_id, FileCreated (temp_path file_name),
            SeekFrame (if 0 \<le> p then \<lfloor>p\<rfloor> else \<lceil>p\<rceil>), ReadFrame] @ rest"
  using assms
  by (auto simp: process_video_try_def download_def write_video_ok video_fps_def seek_and_read_def
        log_def Let_def py_int_Finite
      dest!: upload_thumbnail_events split: option.splits prod.splits if_splits)

lemma process_video_try_int_raises:
  assumes "next_chunks (get_media w file_id) [] = Inr content"
    and "fs_open_wb w (temp_path file_name) = None"
    and "fs_write w (temp_path file_name) = None"
    and "cap_fps w content \<noteq> Finite 0"
    and "py_int (float_mul w (cap_fps w content) (CAPTURE_TIMESTAMP_SECONDS w)) = Inl e"
  shows "process_video_try w file_id file_name folder_path s =
           (Inl e, Some (temp_path file_name), None,
            s\<lparr>fs := (fs s)(temp_path file_name \<mapsto> content),
              events := events s @ [DownloadCall file_id, FileCreated (temp_path file_name)]\<rparr>)"
  using assms
  by (simp add: process_video_try_def download_def log_def write_video_ok video_fps_def Let_def)

lemma process_video_int_raises:
  assumes "next_chunks (get_media w (item_id video_file)) [] = Inr content"
    and "fs_open_wb w (temp_path (item_name video_file)) = None"
    and "fs_write w (temp_path (item_name video_file)) = None"
    and "cap_fps w content \<noteq> Finite 0"
    and "py_int (float_mul w (cap_fps w content) (CAPTURE_TIMESTAMP_SECONDS w)) = Inl e"
    and "e \<noteq> HttpError"
    and "process_video w video_file folder_path s = (r, s')"
  shows "r = Inl e \<and>
         new_events s s' =
           [DownloadCall (item_id video_file), FileCreated (temp_path (item_name video_file))] @
           (if os_remove w (temp_path (item_name video_file)) = None
            then [FileRemoved (temp_path (item_name video_file))] else [])"
  using assms(6,7)
  by (auto simp: process_video_def process_video_try_int_raises [OF assms(1-5)]
        except_HttpError_def cleanup_def remove_if_exists_def new_events_def log_def
      split: option.splits)

text \<open>
  Claim C7, amended. Let the video be on disk with a frame rate other than 0, and let the
  product be the double-precision product of the frame rate and the capture timestamp as
  the machine computes it. When the product is finite, the next two events of
  \<open>process_video\<close> are the seek to the frame index and the read, in that order, and the
  index is the product with its fractional part dropped (\<^verbatim>\<open>int()\<close>): its floor when the
  product is not negative, its ceiling when it is negative. When the product is an
  infinity or a NaN, \<^verbatim>\<open>int()\<close> raises \<open>OverflowError\<close> or \<open>ValueError\<close>, which leaves
  \<open>process_video\<close>, and nothing is sought. The rate 30 with the timestamp 2, whose product
  is 60, gives the index 60.
\<close>

theorem process_video_frame_index:
  assumes "next_chunks (get_media w (item_id video_file)) [] = Inr content"
    and "fs_open_wb w (temp_path (item_name video_file)) = None"
    and "fs_write w (temp_path (item_name video_file)) = None"
    and "cap_fps w content \<noteq> Finite 0"
    and "process_video w video_file folder_path s = (r, s')"
  shows "(\<forall>p. float_mul w (cap_fps w content) (CAPTURE_TIMESTAMP_SECONDS w) = Finite p \<longrightarrow>
            (\<exists>rest. new_events s s' =
               [DownloadCall (item_id video_file), FileCreated (temp_path (item_name video_file)),
                SeekFrame (if 0 \<le> p then \<lfloor>p\<rfloor> else \<lceil>p\<rceil>), ReadFrame] @ rest)) \<and>
         (float_mul w (cap_fps w content) (CAPTURE_TIMESTAMP_SECONDS w) = Infinite \<longrightarrow>
            r = Inl OverflowError \<and>
            new_events s s' =
              [DownloadCall (item_id video_file), FileCreated (temp_path (item_name video_file))] @
              (if os_remove w (temp_path (item_name video_file)) = None
               then [FileRemoved (temp_path (item_name video_file))] else [])) \<and>
         (float_mul w (cap_fps w content) (CAPTURE_TIMESTAMP_SECONDS w) = NaN \<longrightarrow>
            r = Inl ValueError \<and>
            new_events s s' =
              [DownloadCall (item_id video_file), FileCreated (temp_path (item_name video_file))] @
              (if os_remove w (temp_path (item_name video_file)) = None
               then [FileRemoved (temp_path (item_name video_file))] else [])) \<and>
         (cap_fps w content = Finite 30 \<and> CAPTURE_TIMESTAMP_SECONDS w = Finite 2 \<and>
          float_mul w (Finite 30) (Finite 2) = Finite 60 \<longrightarrow>
            (\<exists>rest. new_events s s' =
               [DownloadCall (item_id video_file), FileCreated (temp_path (item_name video_file)),
                SeekFrame 60, ReadFrame] @ rest))"
proof -
  have finite: "\<exists>rest. new_events s s' =
               [DownloadCall (item_id video_file), FileCreated (temp_path (item_name video_file)),
                SeekFrame (if 0 \<le> p then \<lfloor>p\<rfloor> else \<lceil>p\<rceil>), ReadFrame] @ rest"
    if p: "float_mul w (cap_fps w content) (CAPTURE_TIMESTAMP_SECONDS w) = Finite p" for p
  proof -
    obtain r1 tv tp s1 where tr:
      "process_video_try w (item_id video_file) (item_name video_file) folder_path s = (r1, tv, tp, s1)"
      by (metis prod_cases4)
    from process_video_try_seek [OF assms(1-4) p tr] obtain rest where
      rest: "events s1 = events s @
             [DownloadCall (item_id video_file), FileCreated (temp_path (item_name video_file)),
              SeekFrame (if 0 \<le> p then \<lfloor>p\<rfloor> else \<lceil>p\<rceil>), ReadFrame] @ rest"
      by blast
    from assms(5) tr have s': "s' = cleanup w tv tp s1"
      by (simp add: process_video_def)
    from cleanup_events [of w tv tp s1] obtain new where
      "events s' = events s1 @ new" unfolding s' by blast
    with rest have "events s' = events s @
             ([DownloadCall (item_id video_file), FileCreated (temp_path (item_name video_file)),
              SeekFrame (if 0 \<le> p then \<lfloor>p\<rfloor> else \<lceil>p\<rceil>), ReadFrame] @ (rest @ new))"
      by simp
    from new_events_append [OF this] show ?thesis by blast
  qed
  have inf: "r = Inl OverflowError \<and>
            new_events s s' =
              [DownloadCall (item_id video_file), FileCreated (temp_path (item_name video_file))] @
              (if os_remove w (temp_path (item_name video_file)) = None
               then [FileRemoved (temp_path (item_name video_file))] else [])"
    if "float_mul w (cap_fps w content) (CAPTURE_TIMESTAMP_SECONDS w) = Infinite"
    using that by (intro process_video_int_raises [OF assms(1-4) _ _ assms(5)]) simp_all
  have nan: "r = Inl ValueError \<and>
            new_events s s' =
              [DownloadCall (item_id video_file), FileCreated (temp_path (item_name video_file))] @
              (if os_remove w (temp_path (item_name video_file)) = None
               then [FileRemoved (temp_path (item_name video_file))] else [])"
    if "float_mul w (cap_fps w content) (CAPTURE_TIMESTAMP_SECONDS w) = NaN"
    using that by (intro process_video_int_raises [OF assms(1-4) _ _ assms(5)]) simp_all
  have sixty: "\<exists>rest. new_events s s' =
               [DownloadCall (item_id video_file), FileCreated (temp_path (item_name video_file)),
                SeekFrame 60, ReadFrame] @ rest"
    if "cap_fps w content = Finite 30 \<and> CAPTURE_TIMESTAMP_SECONDS w = Finite 2 \<and>
          float_mul w (Finite 30) (Finite 2) = Finite 60"
    using finite [of 60] that by simp
  from finite inf nan sixty show ?thesis by blast
qed

text \<open>
  Claim C7 as stated fails for a negative product: with the timestamp -0.5 and 25 frames
  per second the product is -12.5 (exact in double precision), whose floor is -13, and the
  pipeline seeks to frame -12.
\<close>

theorem process_video_frame_index_counterexample:
  "cap_fps negative_timestamp_world ''abcd'' = Finite 25 \<and>
   CAPTURE_TIMESTAMP_SECONDS negative_timestamp_world = Finite (- (1 / 2)) \<and>
   float_mul negative_timestamp_world (Finite 25) (Finite (- (1 / 2))) = Finite (- (25 / 2)) \<and>
   \<lfloor>- (25 / 2) :: rat\<rfloor> = - 13 \<and>
   events (snd (process_video negative_timestamp_world demo_video ''<root>/Clips'' demo_state)) =
     [DownloadCall ''a'', FileCreated ''temp_a.mp4'', SeekFrame (- 12), ReadFrame,
      FileCreated ''temp_a_Thumbnail.jpg'',
      UploadCall \<lparr>md_name = ''a_Thumbnail.jpg'', md_parents = [''thumbs'']\<rparr>,
      FileRemoved ''temp_a.mp4'', FileRemoved ''temp_a_Thumbnail.jpg'']"
  by code_simp

text \<open>The scenario's video (30 frames per second, timestamp 2), the negative timestamp,
  and the timestamps \<^verbatim>\<open>inf\<close> and \<^verbatim>\<open>nan\<close>.\<close>

theorem process_video_frame_index_witness:
  "cap_fps demo_world ''abcd'' = Finite 30 \<and> CAPTURE_TIMESTAMP_SECONDS demo_world = Finite 2 \<and>
   float_mul demo_world (Finite 30) (Finite 2) = Finite 60 \<and>
   (\<exists>rest. new_events demo_state (snd (process_video demo_world demo_video ''<root>/Clips'' demo_state)) =
      [DownloadCall ''a'', FileCreated (temp_path ''a.mp4''), SeekFrame 60, ReadFrame] @ rest) \<and>
   float_mul negative_timestamp_world (cap_fps negative_timestamp_world ''abcd'')
     (CAPTURE_TIMESTAMP_SECONDS negative_timestamp_world) = Finite (- (25 / 2)) \<and>
   (\<exists>rest. new_events demo_state
      (snd (process_video negative_timestamp_world demo_video ''<root>/Clips'' demo_state)) =
      [DownloadCall ''a'', FileCreated (temp_path ''a.mp4''), SeekFrame (- 12), ReadFrame] @ rest) \<and>
   float_mul infinite_timestamp_world (cap_fps infinite_timestamp_world ''abcd'')
     (CAPTURE_TIMESTAMP_SECONDS infinite_timestamp_world) = Infinite \<and>
   fst (process_video infinite_timestamp_world demo_video ''<root>/Clips'' demo_state) =
     Inl OverflowError \<and>
   float_mul nan_timestamp_world (cap_fps nan_timestamp_world ''abcd'')
     (CAPTURE_TIMESTAMP_SECONDS nan_timestamp_world) = NaN \<and>
   fst (process_video nan_timestamp_world demo_video ''<root>/Clips'' demo_state) = Inl ValueError"
proof -
  have h1: "next_chunks (get_media demo_world (item_id demo_video)) [] = Inr ''abcd''"
    "fs_open_wb demo_world (temp_path (item_name demo_video)) = None"
    "fs_write demo_world (temp_path (item_name demo_video)) = None"
    "cap_fps demo_world ''abcd'' \<noteq> Finite 0"
    by (simp_all add: demo_world_def demo_video_def)
  have h2: "next_chunks (get_media negative_timestamp_world (item_id demo_video)) [] = Inr ''abcd''"
    "fs_open_wb negative_timestamp_world (temp_path (item_name demo_video)) = None"
    "fs_write negative_timestamp_world (temp_path (item_name demo_video)) = None"
    "cap_fps negative_timestamp_world ''abcd'' \<noteq> Finite 0"
    by (simp_all add: negative_timestamp_world_def demo_world_def demo_video_def)
  have h3: "next_chunks (get_media infinite_timestamp_world (item_id demo_video)) [] = Inr ''abcd''"
    "fs_open_wb infinite_timestamp_world (temp_path (item_name demo_video)) = None"
    "fs_write infinite_timestamp_world (temp_path (item_name demo_video)) = None"
    "cap_fps infinite_timestamp_world ''abcd'' \<noteq> Finite 0"
    by (simp_all add: infinite_timestamp_world_def demo_world_def demo_video_def)
  have h4: "next_chunks (get_media nan_timestamp_world (item_id demo_video)) [] = Inr ''abcd''"
    "fs_open_wb nan_timestamp_world (temp_path (item_name demo_video)) = None"
    "fs_write nan_timestamp_world (temp_path (item_name demo_video)) = None"
    "cap_fps nan_timestamp_world ''abcd'' \<noteq> Finite 0"
    by (simp_all add: nan_timestamp_world_def demo_world_def demo_video_def)
  have v: "cap_fps demo_world ''abcd'' = Finite 30 \<and>
    CAPTURE_TIMESTAMP_SECONDS demo_world = Finite 2 \<and>
    float_mul demo_world (Finite 30) (Finite 2) = Finite 60"
    by (simp add: demo_world_def example_mul_def)
  have n: "float_mul negative_timestamp_world (cap_fps negative_timestamp_world ''abcd'')
     (CAPTURE_TIMESTAMP_SECONDS negative_timestamp_world) = Finite (- (25 / 2))"
    by (simp add: negative_timestamp_world_def demo_world_def example_mul_def)
  have i: "float_mul infinite_timestamp_world (cap_fps infinite_timestamp_world ''abcd'')
     (CAPTURE_TIMESTAMP_SECONDS infinite_timestamp_world) = Infinite"
    by (simp add: infinite_timestamp_world_def demo_world_def example_mul_def)
  have a: "float_mul nan_timestamp_world (cap_fps nan_timestamp_world ''abcd'')
     (CAPTURE_TIMESTAMP_SECONDS nan_timestamp_world) = NaN"
    by (simp add: nan_timestamp_world_def demo_world_def example_mul_def)
  have c: "\<lceil>- (25 / 2) :: rat\<rceil> = - 12"
    by (simp add: ceiling_unique)
  note t1 = process_video_frame_index [OF h1 prod.collapse [symmetric],
      where folder_path = "''<root>/Clips''" and s = demo_state,
      THEN conjunct2, THEN conjunct2, THEN conjunct2, THEN mp, OF v]
  note t2 = process_video_frame_index [OF h2 prod.collapse [symmetric],
      where folder_path = "''<root>/Clips''" and s = demo_state,
      THEN conjunct1, THEN spec, THEN mp, OF n]
  note t3 = process_video_frame_index [OF h3 prod.collapse [symmetric],
      where folder_path = "''<root>/Clips''" and s = demo_state,
      THEN conjunct2, THEN conjunct1, THEN mp, OF i, THEN conjunct1]
  note t4 = process_video_frame_index [OF h4 prod.collapse [symmetric],
      where folder_path = "''<root>/Clips''" and s = demo_state,
      THEN conjunct2, THEN conjunct2, THEN conjunct1, THEN mp, OF a, THEN conjunct1]
  from t1 have 1: "\<exists>rest. new_events demo_state
      (snd (process_video demo_world demo_video ''<root>/Clips'' demo_state)) =
      [DownloadCall ''a'', FileCreated (temp_path ''a.mp4''), SeekFrame 60, ReadFrame] @ rest"
    by (simp add: demo_video_def)
  from t2 have 2: "\<exists>rest. new_events demo_state
      (snd (process_video negative_timestamp_world demo_video ''<root>/Clips'' demo_state)) =
      [DownloadCall ''a'', FileCreated (temp_path ''a.mp4''), SeekFrame (- 12), ReadFrame] @ rest"
    by (simp add: demo_video_def c)
  from v n i a 1 2 t3 t4 show ?thesis by (intro conjI) simp_all
qed

section \<open>A deletion that fails\<close>

text \<open>
  Claim C10. Whatever \<^verbatim>\<open>os.remove\<close> does during the cleanup, \<open>process_video\<close> ends the way
  its \<^verbatim>\<open>try\<close> and \<^verbatim>\<open>except HttpError\<close> decided before the cleanup: the result is the same as
  in the environment where no deletion fails, so a failed deletion raises nothing to the
  caller. When the temporary video was created and its deletion raises, the file is still
  on disk afterwards.
\<close>

theorem process_video_cleanup_error_swallowed:
  "process_video w video_file folder_path s = (r, s') \<Longrightarrow>
   r = except_HttpError None
         (fst (process_video_try w (item_id video_file) (item_name video_file) folder_path s)) \<and>
   r = fst (process_video (w\<lparr>os_remove := (\<lambda>path. None)\<rparr>) video_file folder_path s) \<and>
   (\<forall>content e.
      next_chunks (get_media w (item_id video_file)) [] = Inr content \<and>
      fs_open_wb w (temp_path (item_name video_file)) = None \<and>
      os_remove w (temp_path (item_name video_file)) = Some e \<longrightarrow>
      fs s' (temp_path (item_name video_file)) \<noteq> None)"
proof (intro conjI allI impI)
  assume run: "process_video w video_file folder_path s = (r, s')"
  then show "r = except_HttpError None
         (fst (process_video_try w (item_id video_file) (item_name video_file) folder_path s))"
    by (auto simp: process_video_def split: prod.splits)
  from run show "r = fst (process_video (w\<lparr>os_remove := (\<lambda>path. None)\<rparr>) video_file folder_path s)"
    by (simp add: process_video_result_os_remove)
next
  fix content e
  assume run: "process_video w video_file folder_path s = (r, s')"
    and h: "next_chunks (get_media w (item_id video_file)) [] = Inr content \<and>
      fs_open_wb w (temp_path (item_name video_file)) = None \<and>
      os_remove w (temp_path (item_name video_file)) = Some e"
  obtain r1 tv tp s1 where tr:
    "process_video_try w (item_id video_file) (item_name video_file) folder_path s = (r1, tv, tp, s1)"
    by (metis prod_cases4)
  from process_video_try_video_exists [OF tr] h
  have tv: "tv = Some (temp_path (item_name video_file))"
    and ex: "fs s1 (temp_path (item_name video_file)) \<noteq> None"
    by simp_all
  from run tr have "s' = cleanup w tv tp s1"
    by (simp add: process_video_def)
  with tv ex h have "s' = s1"
    by (simp add: cleanup_def remove_if_exists_def)
  with ex show "fs s' (temp_path (item_name video_file)) \<noteq> None" by simp
qed

text \<open>With every deletion refused, the scenario's video still yields its row, and its
  temporary file stays.\<close>

theorem process_video_cleanup_error_swallowed_witness:
  "os_remove locked_files_world (temp_path (item_name demo_video)) = Some OSError \<and>
   fst (process_video locked_files_world demo_video ''<root>/Clips'' demo_state) =
     fst (process_video demo_world demo_video ''<root>/Clips'' demo_state) \<and>
   fst (process_video demo_world demo_video ''<root>/Clips'' demo_state) =
     Inr (Some (Some ''a_Thumbnail.jpg'', ''<root>/Clips'', Some ''link'')) \<and>
   fs (snd (process_video locked_files_world demo_video ''<root>/Clips'' demo_state))
     (temp_path (item_name demo_video)) \<noteq> None"
proof -
  have h: "next_chunks (get_media locked_files_world (item_id demo_video)) [] = Inr ''abcd'' \<and>
      fs_open_wb locked_files_world (temp_path (item_name demo_video)) = None \<and>
      os_remove locked_files_world (temp_path (item_name demo_video)) = Some OSError"
    by (simp add: locked_files_world_def demo_world_def)
  have w: "locked_files_world\<lparr>os_remove := (\<lambda>path. None)\<rparr> = demo_world"
    by (simp add: locked_files_world_def demo_world_def)
  have d: "fst (process_video demo_world demo_video ''<root>/Clips'' demo_state) =
     Inr (Some (Some ''a_Thumbnail.jpg'', ''<root>/Clips'', Some ''link''))"
    by code_simp
  from process_video_cleanup_error_swallowed
    [OF prod.collapse [symmetric], where w = locked_files_world and video_file = demo_video
       and folder_path = "''<root>/Clips''" and s = demo_state]
    h w d
  show ?thesis by auto
qed

section \<open>The row of a processed video\<close>

lemma upload_thumbnail_Some:
  assumes "upload_thumbnail w file_name folder_path img s = (Inr (Some (n, p, l)), tp, s')"
  shows "p = folder_path \<and>
         (\<exists>media up.
            files_create w \<lparr>md_name = thumbnail_name_of file_name,
                            md_parents = [THUMBNAIL_FOLDER_ID w]\<rparr> media = Inr up \<and>
            n = up_name up \<and> l = webViewLink up \<and>
            drive_uploaded s' = drive_uploaded s @
              [(\<lparr>md_name = thumbnail_name_of file_name,
                 md_parents = [THUMBNAIL_FOLDER_ID w]\<rparr>, media)])"
  using assms
  by (auto simp: stage_defs split: option.splits sum.splits if_splits)

lemma process_video_try_Some:
  assumes "process_video_try w file_id file_name folder_path s = (Inr (Some (n, p, l)), tv, tp, s1)"
  shows "p = folder_path \<and>
         (\<exists>media up.
            files_create w \<lparr>md_name = thumbnail_name_of file_name,
                            md_parents = [THUMBNAIL_FOLDER_ID w]\<rparr> media = Inr up \<and>
            n = up_name up \<and> l = webViewLink up \<and>
            drive_uploaded s1 = drive_uploaded s @
              [(\<lparr>md_name = thumbnail_name_of file_name,
                 md_parents = [THUMBNAIL_FOLDER_ID w]\<rparr>, media)])"
  using assms
  by (auto simp: process_video_try_def download_def write_video_def video_fps_def seek_and_read_def
        log_def Let_def
      dest!: upload_thumbnail_Some split: option.splits sum.splits if_splits prod.splits)

lemma cleanup_keeps_remote [simp]:
  "drive_uploaded (cleanup w tv tp s) = drive_uploaded s"
  "sheet (cleanup w tv tp s) = sheet s"
  "append_requests (cleanup w tv tp s) = append_requests s"
  by (auto simp: stage_defs split: option.splits sum.splits if_splits prod.splits)

lemma except_HttpError_Some: "except_HttpError None r = Inr (Some t) \<Longrightarrow> r = Inr (Some t)"
  by (auto simp: except_HttpError_def split: sum.splits if_splits)

lemma process_video_Some:
  assumes "process_video w video_file folder_path s = (Inr (Some (n, p, l)), s')"
  shows "p = folder_path \<and>
         (\<exists>media up.
            files_create w \<lparr>md_name = thumbnail_name_of (item_name video_file),
                            md_parents = [THUMBNAIL_FOLDER_ID w]\<rparr> media = Inr up \<and>
            n = up_name up \<and> l = webViewLink up \<and>
            drive_uploaded s' = drive_uploaded s @
              [(\<lparr>md_name = thumbnail_name_of (item_name video_file),
                 md_parents = [THUMBNAIL_FOLDER_ID w]\<rparr>, media)])"
proof -
  obtain r1 tv tp s1 where tr:
    "process_video_try w (item_id video_file) (item_name video_file) folder_path s = (r1, tv, tp, s1)"
    by (metis prod_cases4)
  with assms have "except_HttpError None r1 = Inr (Some (n, p, l))" and s': "s' = cleanup w tv tp s1"
    by (simp_all add: process_video_def)
  then have "r1 = Inr (Some (n, p, l))" by (simp add: except_HttpError_Some)
  with tr process_video_try_Some [of w "item_id video_file" "item_name video_file" folder_path s n p l tv tp s1]
  show ?thesis by (simp add: s')
qed

lemma append_to_sheet_at_most_one_row:
  "append_to_sheet w data_row s = (r, s') \<Longrightarrow>
   sheet s' = sheet s \<or> (\<exists>row. data_row = Some row \<and> sheet s' = sheet s @ [row])"
proof (cases data_row)
  case None
  assume "append_to_sheet w data_row s = (r, s')"
  with None show ?thesis by (simp add: append_to_sheet_def)
next
  case (Some row)
  assume run: "append_to_sheet w data_row s = (r, s')"
  show ?thesis
  proof (cases "row = []")
    case True
    with Some run show ?thesis by (simp add: append_to_sheet_def)
  next
    case False
    with Some run have "append_attempts w row 0 (2 ^ (0 + 1)) s = (r, s')"
      by (simp add: append_to_sheet_def)
    from append_attempts_shape [OF _ this] Some show ?thesis
      by (auto simp: max_retries_def)
  qed
qed

section \<open>Listings of more than one page\<close>

text \<open>
  Claim C1 fails on the code. \<open>traverse_folder\<close> sends one listing request for the folder,
  without a page token, and never reads \<open>nextPageToken\<close>: the video of the second page is
  neither downloaded nor logged.
\<close>

theorem traverse_folder_first_page_only:
  "files_list paged_world ''root'' None =
     Inr \<lparr>files = Some [\<lparr>item_id = ''v1'', item_name = ''v1.mp4'', mimeType = Some ''video/mp4''\<rparr>],
          nextPageToken = Some ''page2''\<rparr> \<and>
   files_list paged_world ''root'' (Some ''page2'') =
     Inr \<lparr>files = Some [\<lparr>item_id = ''v2'', item_name = ''v2.mp4'', mimeType = Some ''video/mp4''\<rparr>],
          nextPageToken = None\<rparr> \<and>
   map_option (\<lambda>(r, s). (r, events s, sheet s))
     (traverse_folder 1 paged_world ''root'' ''<root>'' demo_state) =
     Some (Inr (),
       [ListCall ''root'' None, DownloadCall ''v1'', FileCreated ''temp_v1.mp4'', SeekFrame 60,
        ReadFrame, FileCreated ''temp_v1_Thumbnail.jpg'',
        UploadCall \<lparr>md_name = ''v1_Thumbnail.jpg'', md_parents = [''thumbs'']\<rparr>,
        FileRemoved ''temp_v1.mp4'', FileRemoved ''temp_v1_Thumbnail.jpg'',
        AppendCall [Some ''v1_Thumbnail.jpg'', Some ''<root>'', Some ''link'']],
       [[Some ''v1_Thumbnail.jpg'', Some ''<root>'', Some ''link'']])"
  by code_simp

section \<open>Temporary files\<close>

lemma live_files_append: "live_files (xs @ ys) L = live_files ys (live_files xs L)"
  by (induction xs arbitrary: L) simp_all

lemma always_within_start: "always_within B es L \<Longrightarrow> L \<subseteq> B"
  by (cases es) simp_all

lemma always_within_append:
  "always_within B (xs @ ys) L \<longleftrightarrow> always_within B xs L \<and> always_within B ys (live_files xs L)"
  by (induction xs arbitrary: L) (auto dest: always_within_start)

lemma always_within_take:
  "always_within B es L \<Longrightarrow> live_files (take k es) L \<subseteq> B"
proof (induction es arbitrary: L k)
  case Nil
  then show ?case by simp
next
  case (Cons e es)
  then show ?case by (cases k) simp_all
qed

lemma always_within_mono: "always_within B es L \<Longrightarrow> B \<subseteq> B' \<Longrightarrow> always_within B' es L"
  by (induction es arbitrary: L) auto

lemma follows_refl: "dom (fs s) \<subseteq> B \<Longrightarrow> follows B s s"
  by (simp add: follows_def)

lemma follows_trans: "follows B s s1 \<Longrightarrow> follows B s1 s2 \<Longrightarrow> follows B s s2"
  by (auto simp: follows_def live_files_append always_within_append)

lemma follows_log:
  "dom (fs s) \<subseteq> B \<Longrightarrow> fs_step e (dom (fs s)) = dom (fs s) \<Longrightarrow> follows B s (log e s)"
  by (simp add: follows_def log_def)

lemma follows_new_events: "follows B s s' \<Longrightarrow> events s' = events s @ new_events s s'"
  by (auto simp: follows_def new_events_def)

lemma follows_dom: "follows B s s' \<Longrightarrow> dom (fs s') = live_files (new_events s s') (dom (fs s))"
  by (auto simp: follows_def new_events_def)

lemma follows_take:
  assumes "follows B s s'"
  shows "live_files (take k (new_events s s')) (dom (fs s)) \<subseteq> B"
proof -
  from assms obtain new where "events s' = events s @ new" "always_within B new (dom (fs s))"
    by (auto simp: follows_def)
  then show ?thesis by (simp add: new_events_def always_within_take)
qed

lemma follows_end: "follows B s s' \<Longrightarrow> dom (fs s') \<subseteq> B"
  using follows_take [of B s s' "length (new_events s s')"] by (simp add: follows_dom)

lemma follows_mono: "follows B s s' \<Longrightarrow> B \<subseteq> B' \<Longrightarrow> follows B' s s'"
  by (auto simp: follows_def dest: always_within_mono)

lemma download_follows:
  "dom (fs s) \<subseteq> B \<Longrightarrow> download w file_id s = (r, s1) \<Longrightarrow> follows B s s1 \<and> fs s1 = fs s"
  by (auto simp: download_def follows_def log_def fs_step_def)

lemma write_video_follows:
  "dom (fs s) \<subseteq> B \<Longrightarrow> path \<in> B \<Longrightarrow> write_video w path content s = (r, s1) \<Longrightarrow>
   follows B s s1 \<and> dom (fs s1) \<subseteq> insert path (dom (fs s)) \<and>
   (\<forall>p. FileCreated p \<in> set (new_events s s1) \<longrightarrow> p = path)"
  by (auto simp: write_video_def follows_def log_def fs_step_def new_events_def Let_def
      split: option.splits)

lemma seek_and_read_follows:
  "dom (fs s) \<subseteq> B \<Longrightarrow> seek_and_read w path frame_id s = (r, s1) \<Longrightarrow>
   follows B s s1 \<and> fs s1 = fs s \<and> (\<forall>p. FileCreated p \<notin> set (new_events s s1))"
  by (auto simp: seek_and_read_def follows_def log_def fs_step_def new_events_def)

lemma upload_thumbnail_follows:
  "dom (fs s) \<subseteq> B \<Longrightarrow> temp_path (thumbnail_name_of file_name) \<in> B \<Longrightarrow>
   upload_thumbnail w file_name folder_path img s = (r, tp, s1) \<Longrightarrow>
   follows B s s1 \<and> tp = Some (temp_path (thumbnail_name_of file_name)) \<and>
   dom (fs s1) \<subseteq> insert (temp_path (thumbnail_name_of file_name)) (dom (fs s)) \<and>
   (\<forall>p. FileCreated p \<in> set (new_events s s1) \<longrightarrow> p = temp_path (thumbnail_name_of file_name))"
  by (auto simp: upload_thumbnail_def follows_def log_def fs_step_def new_events_def Let_def
      split: option.splits sum.splits if_splits)

lemma new_events_trans:
  "follows B s s1 \<Longrightarrow> follows B s1 s2 \<Longrightarrow> new_events s s2 = new_events s s1 @ new_events s1 s2"
  by (auto simp: follows_def new_events_def)

lemma stage_ok_refl: "dom (fs s) \<subseteq> B \<Longrightarrow> stage_ok B C s s"
  by (simp add: stage_ok_def follows_refl new_events_def)

lemma stage_ok_trans:
  assumes "stage_ok B C s s1" and "stage_ok B C' s1 s2"
  shows "stage_ok B (C \<union> C') s s2"
proof -
  from assms have f: "follows B s s1" "follows B s1 s2" by (simp_all add: stage_ok_def)
  from assms have d: "dom (fs s1) \<subseteq> dom (fs s) \<union> C" "dom (fs s2) \<subseteq> dom (fs s1) \<union> C'"
    by (simp_all add: stage_ok_def)
  then have d2: "dom (fs s2) \<subseteq> dom (fs s) \<union> (C \<union> C')" by blast
  from assms have c: "\<forall>p. FileCreated p \<in> set (new_events s s2) \<longrightarrow> p \<in> C \<union> C'"
    unfolding stage_ok_def new_events_trans [OF f] by auto
  from follows_trans [OF f] d2 c show ?thesis by (simp add: stage_ok_def)
qed

lemma stage_ok_mono: "stage_ok B C s s' \<Longrightarrow> C \<subseteq> C' \<Longrightarrow> stage_ok B C' s s'"
  by (auto simp: stage_ok_def)

lemma download_stage:
  "dom (fs s) \<subseteq> B \<Longrightarrow> download w file_id s = (r, s1) \<Longrightarrow> stage_ok B {} s s1"
  by (auto simp: stage_ok_def download_def follows_def log_def fs_step_def new_events_def)

lemma write_video_stage:
  "dom (fs s) \<subseteq> B \<Longrightarrow> path \<in> B \<Longrightarrow> write_video w path content s = (r, s1) \<Longrightarrow>
   stage_ok B {path} s s1"
  using write_video_follows [of s B path w content r s1] by (auto simp: stage_ok_def)

lemma seek_and_read_stage:
  "dom (fs s) \<subseteq> B \<Longrightarrow> seek_and_read w path frame_id s = (r, s1) \<Longrightarrow> stage_ok B {} s s1"
  using seek_and_read_follows [of s B w path frame_id r s1] by (auto simp: stage_ok_def)

lemma upload_thumbnail_stage:
  "dom (fs s) \<subseteq> B \<Longrightarrow> temp_path (thumbnail_name_of file_name) \<in> B \<Longrightarrow>
   upload_thumbnail w file_name folder_path img s = (r, tp, s1) \<Longrightarrow>
   stage_ok B {temp_path (thumbnail_name_of file_name)} s s1 \<and>
   tp = Some (temp_path (thumbnail_name_of file_name))"
  using upload_thumbnail_follows [of s B file_name w folder_path img r tp s1]
  by (auto simp: stage_ok_def)

lemma stage_ok_end: "stage_ok B C s s' \<Longrightarrow> dom (fs s') \<subseteq> B"
  by (auto simp: stage_ok_def dest: follows_end)

lemma process_video_try_stage:
  assumes B: "dom (fs s) \<subseteq> B" "temp_path file_name \<in> B"
      "temp_path (thumbnail_name_of file_name) \<in> B"
    and run: "process_video_try w file_id file_name folder_path s = (r, tv, tp, s1)"
  shows "stage_ok B (set_option tv \<union> set_option tp) s s1 \<and>
         set_option tv \<subseteq> {temp_path file_name} \<and>
         set_option tp \<subseteq> {temp_path (thumbnail_name_of file_name)}"
proof -
  obtain rd sd where d: "download w file_id s = (rd, sd)" by fastforce
  from download_stage [OF B(1) d] have sd: "stage_ok B {} s sd" .
  show ?thesis
  proof (cases rd)
    case (Inl e)
    with run d sd show ?thesis by (auto simp: process_video_try_def)
  next
    case (Inr content)
    obtain rw sw where wv: "write_video w (temp_path file_name) content sd = (rw, sw)" by fastforce
    from write_video_stage [OF stage_ok_end [OF sd] B(2) wv] sd
    have sw: "stage_ok B {temp_path file_name} s sw"
      by (auto dest: stage_ok_trans)
    show ?thesis
    proof (cases rw)
      case (Inl e)
      with run d wv \<open>rd = Inr content\<close> sw show ?thesis
        by (auto simp: process_video_try_def)
    next
      case (Inr u)
      note w_ok = this
      show ?thesis
      proof (cases "video_fps w (temp_path file_name) sw = Finite 0 \<or>
          (\<exists>e. py_int (float_mul w (video_fps w (temp_path file_name) sw)
                  (CAPTURE_TIMESTAMP_SECONDS w)) = Inl e)")
        case True
        with run d wv \<open>rd = Inr content\<close> w_ok sw show ?thesis
          by (auto simp: process_video_try_def Let_def split: if_splits)
      next
        case False
        then obtain frame_id where fps: "video_fps w (temp_path file_name) sw \<noteq> Finite 0"
          and frame_id: "py_int (float_mul w (video_fps w (temp_path file_name) sw)
                  (CAPTURE_TIMESTAMP_SECONDS w)) = Inr frame_id"
          by (cases "py_int (float_mul w (video_fps w (temp_path file_name) sw)
                  (CAPTURE_TIMESTAMP_SECONDS w))") auto
        obtain success frame sr where
          sr: "seek_and_read w (temp_path file_name) frame_id sw = ((success, frame), sr)"
          by (metis prod.collapse)
        from seek_and_read_stage [OF stage_ok_end [OF sw] sr] sw
        have s_r: "stage_ok B {temp_path file_name} s sr"
          by (auto dest: stage_ok_trans)
        show ?thesis
        proof (cases "frame = None \<or> \<not> success")
          case True
          with run d wv \<open>rd = Inr content\<close> w_ok fps frame_id sr s_r show ?thesis
            by (auto simp: process_video_try_def Let_def split: option.splits)
        next
          case False
          then obtain img where img: "frame = Some img" "success" by auto
          obtain ru tpu su where
            up: "upload_thumbnail w file_name folder_path img sr = (ru, tpu, su)"
            by (metis prod_cases3)
          from upload_thumbnail_stage [OF stage_ok_end [OF s_r] B(3) up]
          have u1: "stage_ok B {temp_path (thumbnail_name_of file_name)} sr su"
            and tpu: "tpu = Some (temp_path (thumbnail_name_of file_name))" by simp_all
          from stage_ok_trans [OF s_r u1]
          have "stage_ok B ({temp_path file_name} \<union> {temp_path (thumbnail_name_of file_name)}) s su" .
          with run d wv \<open>rd = Inr content\<close> w_ok fps frame_id sr img up tpu
          show ?thesis
            by (auto simp: process_video_try_def Let_def)
        qed
      qed
    qed
  qed
qed

lemma cleanup_follows:
  "dom (fs s) \<subseteq> B \<Longrightarrow> stage_ok B {} s (cleanup w tv tp s)"
  by (auto simp: stage_ok_def cleanup_def remove_if_exists_def follows_def log_def fs_step_def
        new_events_def split: option.splits)

lemma cleanup_removes:
  assumes "\<forall>path. os_remove w path = None"
    and "set_option tv \<subseteq> {temp_path a}" and "set_option tp \<subseteq> {temp_path b}"
  shows "dom (fs (cleanup w tv tp s)) = dom (fs s) - set_option tv - set_option tp"
  using assms
  by (cases tv; cases tp) (auto simp: cleanup_def remove_if_exists_def log_def)

lemma process_video_stage:
  assumes nofail: "\<forall>path. os_remove w path = None"
    and run: "process_video w video_file folder_path s = (r, s')"
  shows "follows (dom (fs s) \<union> {temp_path (item_name video_file),
                                 temp_path (thumbnail_name_of (item_name video_file))}) s s' \<and>
         dom (fs s') \<subseteq> dom (fs s) \<and>
         (\<forall>p. FileCreated p \<in> set (new_events s s') \<longrightarrow> fs s' p = None)"
proof -
  let ?B = "dom (fs s) \<union> {temp_path (item_name video_file),
                           temp_path (thumbnail_name_of (item_name video_file))}"
  obtain r1 tv tp s1 where tr:
    "process_video_try w (item_id video_file) (item_name video_file) folder_path s = (r1, tv, tp, s1)"
    by (metis prod_cases4)
  have "dom (fs s) \<subseteq> ?B" "temp_path (item_name video_file) \<in> ?B"
    "temp_path (thumbnail_name_of (item_name video_file)) \<in> ?B" by auto
  from process_video_try_stage [OF this tr]
  have st: "stage_ok ?B (set_option tv \<union> set_option tp) s s1"
    and tv: "set_option tv \<subseteq> {temp_path (item_name video_file)}"
    and tp: "set_option tp \<subseteq> {temp_path (thumbnail_name_of (item_name video_file))}"
    by simp_all
  from run tr have s': "s' = cleanup w tv tp s1" by (simp add: process_video_def)
  from cleanup_follows [OF stage_ok_end [OF st], of w tv tp]
  have cl: "stage_ok ?B {} s1 s'" by (simp add: s')
  from stage_ok_trans [OF st cl]
  have all: "stage_ok ?B (set_option tv \<union> set_option tp) s s'" by simp
  from cleanup_removes [OF nofail tv tp, of s1]
  have dom': "dom (fs s') = dom (fs s1) - set_option tv - set_option tp" by (simp add: s')
  note d1 = st [unfolded stage_ok_def, THEN conjunct2, THEN conjunct1]
  have sub: "dom (fs s') \<subseteq> dom (fs s)"
  proof
    fix p assume "p \<in> dom (fs s')"
    then have "p \<in> dom (fs s1)" "p \<notin> set_option tv" "p \<notin> set_option tp"
      unfolding dom' by simp_all
    with d1 show "p \<in> dom (fs s)" by (meson UnE subsetD)
  qed
  have gone: "fs s' p = None" if "FileCreated p \<in> set (new_events s s')" for p
  proof -
    note c = all [unfolded stage_ok_def, THEN conjunct2, THEN conjunct2, rule_format]
    from c [OF that] have "p \<in> set_option tv \<or> p \<in> set_option tp" by simp
    then have "p \<notin> dom (fs s')" unfolding dom' by auto
    then show ?thesis by (simp add: domIff)
  qed
  note f = all [unfolded stage_ok_def, THEN conjunct1]
  from f sub gone show ?thesis by (intro conjI allI impI)
qed

lemma tidy_refl: "tidy s s"
  by (simp add: tidy_def new_events_def) blast

lemma tidy_trans:
  assumes "tidy s s1" and "tidy s1 s2"
  shows "tidy s s2"
proof -
  from assms obtain n1 n2 where e: "events s1 = events s @ n1" "events s2 = events s1 @ n2"
    unfolding tidy_def by blast
  then have n: "new_events s s1 = n1" "new_events s1 s2 = n2" "new_events s s2 = n1 @ n2"
    by (simp_all add: new_events_def)
  from assms(1) have d1: "dom (fs s1) = live_files n1 (dom (fs s))" "dom (fs s1) \<subseteq> dom (fs s)"
    unfolding tidy_def n by blast+
  from assms(2) have d2: "dom (fs s2) = live_files n2 (dom (fs s1))" "dom (fs s2) \<subseteq> dom (fs s1)"
    unfolding tidy_def n by blast+
  note d = d1(1) d2(1) d1(2) d2(2)
  have "\<exists>file_name. live_files (take k (n1 @ n2)) (dom (fs s)) \<subseteq>
        dom (fs s) \<union> {temp_path file_name, temp_path (thumbnail_name_of file_name)}" for k
  proof (cases "k \<le> length n1")
    case True
    from assms(1) obtain file_name where
      "live_files (take k n1) (dom (fs s)) \<subseteq>
         dom (fs s) \<union> {temp_path file_name, temp_path (thumbnail_name_of file_name)}"
      unfolding tidy_def n by blast
    with True show ?thesis by (intro exI [of _ file_name]) simp
  next
    case False
    then have "live_files (take k (n1 @ n2)) (dom (fs s)) =
               live_files (take (k - length n1) n2) (dom (fs s1))"
      by (simp add: live_files_append d(1))
    moreover from assms(2) obtain file_name where
      "live_files (take (k - length n1) n2) (dom (fs s1)) \<subseteq>
         dom (fs s1) \<union> {temp_path file_name, temp_path (thumbnail_name_of file_name)}"
      unfolding tidy_def n by blast
    ultimately show ?thesis using d(3) by (intro exI [of _ file_name]) blast
  qed
  moreover have "events s2 = events s @ n1 @ n2" using e by simp
  moreover have "dom (fs s2) = live_files (n1 @ n2) (dom (fs s))"
    unfolding live_files_append d(2) d(1) ..
  moreover have "dom (fs s2) \<subseteq> dom (fs s)" using d by blast
  ultimately show ?thesis unfolding tidy_def n by (metis append.assoc)
qed

lemma follows_tidy:
  assumes f: "follows (dom (fs s) \<union> {temp_path file_name, temp_path (thumbnail_name_of file_name)}) s s'"
    and d: "dom (fs s') \<subseteq> dom (fs s)"
  shows "tidy s s'"
proof -
  have "\<exists>file_name. live_files (take k (new_events s s')) (dom (fs s)) \<subseteq>
        dom (fs s) \<union> {temp_path file_name, temp_path (thumbnail_name_of file_name)}" for k
    using follows_take [OF f, of k] by blast
  with follows_new_events [OF f] follows_dom [OF f] d show ?thesis
    unfolding tidy_def by blast
qed

lemma fs_step_other [simp]:
  "fs_step (AppendCall r) L = L" "fs_step (Sleep n) L = L" "fs_step (ListCall f t) L = L"
  by (simp_all add: fs_step_def)

lemma retry_events_files:
  "live_files (retry_events r a m) L = L"
  "always_within B (retry_events r a m) L \<longleftrightarrow> L \<subseteq> B"
proof -
  have 1: "live_files (concat (map (\<lambda>k. [AppendCall r, Sleep (g k)]) ks)) L = L"
    for ks and g :: "nat \<Rightarrow> nat"
    by (induction ks) simp_all
  have 2: "always_within B (concat (map (\<lambda>k. [AppendCall r, Sleep (g k)]) ks) @ [AppendCall r]) L
           \<longleftrightarrow> L \<subseteq> B" for ks and g :: "nat \<Rightarrow> nat"
    by (induction ks) auto
  show "live_files (retry_events r a m) L = L"
    by (simp add: retry_events_def live_files_append 1)
  show "always_within B (retry_events r a m) L \<longleftrightarrow> L \<subseteq> B"
    unfolding retry_events_def by (rule 2)
qed

lemma append_to_sheet_follows:
  assumes "append_to_sheet w data_row s = (r, s')"
  shows "follows (dom (fs s)) s s' \<and> fs s' = fs s \<and> drive_uploaded s' = drive_uploaded s"
proof (cases "data_row = None \<or> data_row = Some []")
  case True
  with assms show ?thesis by (auto simp: append_to_sheet_def follows_refl)
next
  case False
  then obtain row where row: "data_row = Some row" "row \<noteq> []" by auto
  with assms have "append_attempts w row 0 (2 ^ (0 + 1)) s = (r, s')"
    by (simp add: append_to_sheet_def)
  from append_attempts_shape [OF _ this] obtain m where
    "events s' = events s @ retry_events row 0 m" "fs s' = fs s" "drive_uploaded s' = drive_uploaded s"
    by (auto simp: max_retries_def)
  then show ?thesis
    by (auto simp: follows_def retry_events_files)
qed

lemma append_to_sheet_tidy:
  assumes "append_to_sheet w data_row s = (r, s')"
  shows "tidy s s'"
proof -
  from append_to_sheet_follows [OF assms] have f: "follows (dom (fs s)) s s'" and "fs s' = fs s"
    by simp_all
  from follows_mono [OF f] have "follows (dom (fs s) \<union> {temp_path [], temp_path (thumbnail_name_of [])}) s s'"
    by blast
  with \<open>fs s' = fs s\<close> show ?thesis by (intro follows_tidy) simp_all
qed

lemma process_video_tidy:
  assumes "\<forall>path. os_remove w path = None"
    and "process_video w video_file folder_path s = (r, s')"
  shows "tidy s s'"
  using process_video_stage [OF assms]
  by (intro follows_tidy [where file_name = "item_name video_file"]) simp_all

lemma list_call_tidy: "tidy s (log (ListCall folder_id None) s)"
proof -
  have "follows (dom (fs s) \<union> {temp_path [], temp_path (thumbnail_name_of [])}) s
          (log (ListCall folder_id None) s)"
    by (rule follows_log) auto
  then show ?thesis by (rule follows_tidy) (simp add: log_def)
qed

section \<open>Relations every step of the walk preserves\<close>

lemma traverse_items_preserves:
  assumes refl: "\<And>s. P s s"
    and trans: "\<And>s s1 s2. P s s1 \<Longrightarrow> P s1 s2 \<Longrightarrow> P s s2"
    and video: "\<And>item p s r s1. process_video w item p s = (r, s1) \<Longrightarrow> P s s1"
    and append: "\<And>data_row s r s1. append_to_sheet w data_row s = (r, s1) \<Longrightarrow> P s s1"
    and folder: "\<And>f p s r s1. traverse_folder n w f p s = Some (r, s1) \<Longrightarrow> P s s1"
  shows "traverse_items n w items current_path s = Some (r, s') \<Longrightarrow> P s s'"
proof (induction items arbitrary: s)
  case Nil
  then show ?case by (simp add: refl)
next
  case (Cons item items)
  let ?mime = "case mimeType item of None \<Rightarrow> [] | Some m \<Rightarrow> m"
  show ?case
  proof (cases "?mime = ''application/vnd.google-apps.folder''")
    case True
    with Cons.prems obtain rf s1 where
      f: "traverse_folder n w (item_id item) (current_path @ ''/'' @ item_name item) s = Some (rf, s1)"
      by (auto split: option.splits)
    show ?thesis
    proof (cases rf)
      case (Inl e)
      with Cons.prems True f have "s' = s1" by simp
      with folder [OF f] show ?thesis by simp
    next
      case (Inr u)
      with Cons.prems True f have "traverse_items n w items current_path s1 = Some (r, s')"
        by simp
      from trans [OF folder [OF f] Cons.IH [OF this]] show ?thesis .
    qed
  next
    case False
    note not_folder = this
    show ?thesis
    proof (cases "prefix ''video/'' ?mime")
      case True
      obtain rv s1 where v: "process_video w item current_path s = (rv, s1)" by fastforce
      show ?thesis
      proof (cases rv)
        case (Inl e)
        with Cons.prems not_folder True v have "s' = s1" by simp
        with video [OF v] show ?thesis by simp
      next
        case (Inr log_data)
        obtain ra s2 where a: "append_to_sheet w (map_option cells log_data) s1 = (ra, s2)"
          by fastforce
        note p2 = trans [OF video [OF v] append [OF a]]
        show ?thesis
        proof (cases ra)
          case (Inl e)
          with Cons.prems not_folder True v Inr a have "s' = s2" by simp
          with p2 show ?thesis by simp
        next
          case (Inr u)
          with Cons.prems not_folder True v \<open>rv = Inr log_data\<close> a
          have "traverse_items n w items current_path s2 = Some (r, s')" by simp
          from trans [OF p2 Cons.IH [OF this]] show ?thesis .
        qed
      qed
    next
      case False
      with Cons.prems not_folder have "traverse_items n w items current_path s = Some (r, s')"
        by simp
      from Cons.IH [OF this] show ?thesis .
    qed
  qed
qed

lemma traverse_folder_preserves:
  assumes refl: "\<And>s. P s s"
    and trans: "\<And>s s1 s2. P s s1 \<Longrightarrow> P s1 s2 \<Longrightarrow> P s s2"
    and listing: "\<And>f s. P s (log (ListCall f None) s)"
    and video: "\<And>item p s r s1. process_video w item p s = (r, s1) \<Longrightarrow> P s s1"
    and append: "\<And>data_row s r s1. append_to_sheet w data_row s = (r, s1) \<Longrightarrow> P s s1"
  shows "traverse_folder n w folder_id current_path s = Some (r, s') \<Longrightarrow> P s s'"
proof (induction n arbitrary: folder_id current_path s r s')
  case 0
  then show ?case by simp
next
  case (Suc n)
  let ?s1 = "log (ListCall folder_id None) s"
  show ?case
  proof (cases "files_list w folder_id None")
    case (Inl e)
    with Suc.prems have "s' = ?s1" by (simp add: Let_def)
    with listing [of s folder_id] show ?thesis by simp
  next
    case (Inr results)
    with Suc.prems obtain r2 where
      "traverse_items n w (case files results of None \<Rightarrow> [] | Some xs \<Rightarrow> xs) current_path ?s1
         = Some (r2, s')"
      by (auto simp: Let_def split: option.splits)
    from traverse_items_preserves [of P w n, OF refl trans video append Suc.IH this]
    have "P ?s1 s'" .
    from trans [OF listing this] show ?thesis .
  qed
qed

lemma traverse_folder_tidy:
  assumes "\<forall>path. os_remove w path = None"
    and "traverse_folder n w folder_id current_path s = Some (r, s')"
  shows "tidy s s'"
proof (rule traverse_folder_preserves [where P = tidy, OF _ _ _ _ _ assms(2)])
  show "tidy s s" for s by (rule tidy_refl)
  show "tidy s s2" if "tidy s s1" "tidy s1 s2" for s s1 s2 using that by (rule tidy_trans)
  show "tidy s (log (ListCall f None) s)" for f s by (rule list_call_tidy)
  show "tidy s s1" if "process_video w item p s = (r, s1)" for item p s r s1
    using assms(1) that by (rule process_video_tidy)
  show "tidy s s1" if "append_to_sheet w data_row s = (r, s1)" for data_row s r s1
    using that by (rule append_to_sheet_tidy)
qed

text \<open>
  Claim C3, amended. Provided no deletion raises: every file \<open>process_video\<close> created is
  gone when it returns, however it ends (a row, \<open>None\<close> or an exception), and at every
  moment of the call the local files are those present at its start and at most the
  temporary video and the temporary thumbnail of that video. For a whole walk, the local
  files at the end are among those at the start, and at every moment they are those of the
  start and at most the temporary video and the temporary thumbnail of one video.
\<close>

theorem process_video_removes_temp_files:
  assumes "\<forall>path. os_remove w path = None"
  shows "(process_video w video_file folder_path s = (r, s') \<longrightarrow>
            (\<forall>p. FileCreated p \<in> set (new_events s s') \<longrightarrow> fs s' p = None) \<and>
            dom (fs s') = live_files (new_events s s') (dom (fs s)) \<and>
            dom (fs s') \<subseteq> dom (fs s) \<and>
            (\<forall>k. live_files (take k (new_events s s')) (dom (fs s)) \<subseteq>
               dom (fs s) \<union> {temp_path (item_name video_file),
                               temp_path (thumbnail_name_of (item_name video_file))})) \<and>
         (traverse_folder n w folder_id current_path t = Some (rt, t') \<longrightarrow>
            dom (fs t') = live_files (new_events t t') (dom (fs t)) \<and>
            dom (fs t') \<subseteq> dom (fs t) \<and>
            (\<forall>k. \<exists>file_name. live_files (take k (new_events t t')) (dom (fs t)) \<subseteq>
               dom (fs t) \<union> {temp_path file_name, temp_path (thumbnail_name_of file_name)}))"
proof (intro conjI impI)
  assume run: "process_video w video_file folder_path s = (r, s')"
  note st = process_video_stage [OF assms run]
  note f = st [THEN conjunct1]
  from st show "\<forall>p. FileCreated p \<in> set (new_events s s') \<longrightarrow> fs s' p = None"
    by (elim conjE)
  from follows_dom [OF f] show "dom (fs s') = live_files (new_events s s') (dom (fs s))" .
  from st show "dom (fs s') \<subseteq> dom (fs s)" by (elim conjE)
  from follows_take [OF f]
  show "\<forall>k. live_files (take k (new_events s s')) (dom (fs s)) \<subseteq>
               dom (fs s) \<union> {temp_path (item_name video_file),
                               temp_path (thumbnail_name_of (item_name video_file))}"
    by (intro allI)
next
  assume run: "traverse_folder n w folder_id current_path t = Some (rt, t')"
  note td = traverse_folder_tidy [OF assms run, unfolded tidy_def]
  from td show "dom (fs t') = live_files (new_events t t') (dom (fs t))" by (elim conjE)
  from td show "dom (fs t') \<subseteq> dom (fs t)" by (elim conjE)
  from td show "\<forall>k. \<exists>file_name. live_files (take k (new_events t t')) (dom (fs t)) \<subseteq>
               dom (fs t) \<union> {temp_path file_name, temp_path (thumbnail_name_of file_name)}"
    by (elim conjE)
qed

text \<open>
  Claim C3 as stated fails when a deletion raises: the handler in the \<^verbatim>\<open>finally\<close> block only
  prints. With every deletion refused, the walk over the two videos ends normally with the
  temporary files of both videos on disk, none of which was there at the start.
\<close>

theorem process_video_removes_temp_files_counterexample:
  "fs demo_state ''temp_a.mp4'' = None \<and> fs demo_state ''temp_b.mp4'' = None \<and>
   map_option (\<lambda>(r, s). (r, fs s ''temp_a.mp4'', fs s ''temp_a_Thumbnail.jpg'',
                              fs s ''temp_b.mp4'', fs s ''temp_b_Thumbnail.jpg''))
     (traverse_folder 1 (two_videos_world\<lparr>os_remove := (\<lambda>path. Some OSError)\<rparr>)
        ''root'' ''<root>'' demo_state) =
     Some (Inr (), Some ''abcd'', Some ''jpeg'', Some ''abcd'', Some ''jpeg'')"
  by code_simp

text \<open>The scenario, where no deletion fails: the video's temporary file is created and is
  gone at the end of \<open>process_video\<close>, and the walk leaves the disk empty.\<close>

theorem process_video_removes_temp_files_witness:
  "(\<forall>path. os_remove demo_world path = None) \<and>
   FileCreated ''temp_a.mp4'' \<in> set (new_events demo_state
       (snd (process_video demo_world demo_video ''<root>/Clips'' demo_state))) \<and>
   fs (snd (process_video demo_world demo_video ''<root>/Clips'' demo_state)) ''temp_a.mp4'' = None \<and>
   traverse_folder 2 demo_world ''root'' ''<root>'' demo_state \<noteq> None \<and>
   dom (fs (snd (the (traverse_folder 2 demo_world ''root'' ''<root>'' demo_state)))) = {}"
proof -
  have nofail: "\<forall>path. os_remove demo_world path = None" by (simp add: demo_world_def)
  have c: "FileCreated ''temp_a.mp4'' \<in> set (new_events demo_state
       (snd (process_video demo_world demo_video ''<root>/Clips'' demo_state)))"
    by code_simp
  have t: "traverse_folder 2 demo_world ''root'' ''<root>'' demo_state \<noteq> None" by code_simp
  then have run: "traverse_folder 2 demo_world ''root'' ''<root>'' demo_state =
     Some (fst (the (traverse_folder 2 demo_world ''root'' ''<root>'' demo_state)),
           snd (the (traverse_folder 2 demo_world ''root'' ''<root>'' demo_state)))"
    by auto
  note thm1 = process_video_removes_temp_files [OF nofail, THEN conjunct1, rule_format,
      OF prod.collapse [symmetric], THEN conjunct1, rule_format, OF c]
  note thm2 = process_video_removes_temp_files [OF nofail, THEN conjunct2, rule_format,
      OF run, THEN conjunct2, THEN conjunct1]
  from thm2 have "dom (fs (snd (the (traverse_folder 2 demo_world ''root'' ''<root>'' demo_state)))) = {}"
    by (simp add: demo_state_def)
  with nofail c thm1 t show ?thesis by simp
qed

section \<open>Errors of the remote services\<close>

lemma next_chunks_Inl: "next_chunks chunks fh = Inl e \<Longrightarrow> Inl e \<in> set chunks"
  by (induction chunks fh rule: next_chunks.induct) auto

lemma upload_thumbnail_raises:
  "raises_only_HttpError w \<Longrightarrow> upload_thumbnail w file_name folder_path img s = (Inl e, tp, s') \<Longrightarrow>
   e = HttpError"
  by (auto simp: raises_only_HttpError_def upload_thumbnail_def log_def Let_def
      split: option.splits sum.splits if_splits)

lemma process_video_try_raises:
  assumes "raises_only_HttpError w"
    and "process_video_try w file_id file_name folder_path s = (Inl e, tv, tp, s1)"
  shows "e = HttpError"
proof -
  from assms(1) have ok: "fs_open_wb w (temp_path file_name) = None"
    "fs_write w (temp_path file_name) = None"
    and dl: "\<And>e. next_chunks (get_media w file_id) [] = Inl e \<Longrightarrow> e = HttpError"
    by (auto simp: raises_only_HttpError_def dest: next_chunks_Inl)
  have fin: "py_int (float_mul w (cap_fps w content) (CAPTURE_TIMESTAMP_SECONDS w)) \<noteq> Inl e"
    for content e
  proof -
    from assms(1) obtain p where
      "float_mul w (cap_fps w content) (CAPTURE_TIMESTAMP_SECONDS w) = Finite p"
      unfolding raises_only_HttpError_def by blast
    then show ?thesis by (simp add: py_int_Finite)
  qed
  from assms(2) show ?thesis
    by (auto simp: process_video_try_def download_def write_video_ok [OF ok] Let_def log_def
          video_fps_def fin
        dest: dl upload_thumbnail_raises [OF assms(1)]
        split: sum.splits prod.splits option.splits if_splits)
qed

lemma process_video_no_raise:
  assumes "raises_only_HttpError w"
  shows "\<exists>log_data. fst (process_video w video_file folder_path s) = Inr log_data"
proof -
  obtain r1 tv tp s1 where tr:
    "process_video_try w (item_id video_file) (item_name video_file) folder_path s = (r1, tv, tp, s1)"
    by (metis prod_cases4)
  show ?thesis
  proof (cases r1)
    case (Inl e)
    with process_video_try_raises [OF assms] tr have "e = HttpError" by blast
    with Inl tr show ?thesis by (simp add: process_video_def except_HttpError_def)
  next
    case (Inr v)
    with tr show ?thesis by (simp add: process_video_def except_HttpError_def)
  qed
qed

lemma append_attempts_no_raise:
  assumes tr: "\<forall>k data_row e. values_append w k data_row = Some e \<longrightarrow> transient e"
  shows "fst (append_attempts w data_row attempt backoff s) = Inr ()"
proof (induction "max_retries - attempt" arbitrary: attempt backoff s)
  case 0
  then show ?case by (subst append_attempts.simps) simp
next
  case (Suc d)
  then have lt: "attempt < max_retries" by simp
  show ?case
  proof (cases "values_append w (append_requests s) data_row")
    case None
    with lt show ?thesis by (simp add: append_attempts_success)
  next
    case (Some e)
    with tr have e: "transient e" by blast
    show ?thesis
    proof (cases "attempt + 1 = max_retries")
      case True
      with Some e show ?thesis by (simp add: append_attempts_give_up)
    next
      case False
      with lt have lt': "attempt + 1 < max_retries" by simp
      from Suc.hyps(2) have "d = max_retries - (attempt + 1)" by simp
      from Suc.hyps(1) [OF this] show ?thesis
        by (simp add: append_attempts_retry [OF lt' Some e])
    qed
  qed
qed

lemma append_to_sheet_no_raise:
  "raises_only_HttpError w \<Longrightarrow> fst (append_to_sheet w data_row s) = Inr ()"
  by (auto simp: append_to_sheet_def raises_only_HttpError_def append_attempts_no_raise
      split: option.splits)

lemma traverse_items_no_raise:
  assumes w: "raises_only_HttpError w"
    and folder: "\<And>f p s r s1. traverse_folder n w f p s = Some (r, s1) \<Longrightarrow> r = Inr ()"
  shows "traverse_items n w items current_path s = Some (r, s') \<Longrightarrow> r = Inr ()"
proof (induction items arbitrary: s)
  case Nil
  then show ?case by simp
next
  case (Cons item items)
  obtain log_data s1 where v: "process_video w item current_path s = (Inr log_data, s1)"
    using process_video_no_raise [OF w, of item current_path s] by (metis prod.collapse)
  obtain s2 where a: "append_to_sheet w (map_option cells log_data) s1 = (Inr (), s2)"
    using append_to_sheet_no_raise [OF w, of "map_option cells log_data" s1] by (metis prod.collapse)
  from Cons.prems v a show ?case
    by (auto simp: Let_def dest: folder Cons.IH split: if_splits option.splits sum.splits)
qed

lemma traverse_folder_no_raise:
  assumes w: "raises_only_HttpError w"
  shows "traverse_folder n w folder_id current_path s = Some (r, s') \<Longrightarrow> r = Inr ()"
proof (induction n arbitrary: folder_id current_path s r s')
  case 0
  then show ?case by simp
next
  case (Suc n)
  show ?case
  proof (cases "files_list w folder_id None")
    case (Inl e)
    with w have "e = HttpError" by (auto simp: raises_only_HttpError_def)
    with Inl Suc.prems show ?thesis by (simp add: Let_def except_HttpError_def)
  next
    case (Inr results)
    with Suc.prems obtain r2 where
      t: "traverse_items n w (case files results of None \<Rightarrow> [] | Some xs \<Rightarrow> xs) current_path
         (log (ListCall folder_id None) s) = Some (r2, s')" and r: "r = except_HttpError () r2"
      by (auto simp: Let_def split: option.splits)
    from traverse_items_no_raise [OF w Suc.IH t] r show ?thesis
      by (simp add: except_HttpError_def)
  qed
qed

lemma extends_refl: "extends s s"
  by (simp add: extends_def)

lemma extends_trans: "extends s s1 \<Longrightarrow> extends s1 s2 \<Longrightarrow> extends s s2"
  by (auto simp: extends_def)

lemma follows_extends: "follows B s s' \<Longrightarrow> extends s s'"
  by (auto simp: follows_def extends_def)

lemma extends_new_events: "extends s s' \<Longrightarrow> events s' = events s @ new_events s s'"
  by (auto simp: extends_def new_events_def)

lemma new_events_extends:
  "extends s s1 \<Longrightarrow> extends s1 s2 \<Longrightarrow> new_events s s2 = new_events s s1 @ new_events s1 s2"
  by (auto simp: extends_def new_events_def)

lemma process_video_follows:
  assumes run: "process_video w video_file folder_path s = (r, s')"
  shows "follows (dom (fs s) \<union> {temp_path (item_name video_file),
                                 temp_path (thumbnail_name_of (item_name video_file))}) s s'"
proof -
  let ?B = "dom (fs s) \<union> {temp_path (item_name video_file),
                           temp_path (thumbnail_name_of (item_name video_file))}"
  obtain r1 tv tp s1 where tr:
    "process_video_try w (item_id video_file) (item_name video_file) folder_path s = (r1, tv, tp, s1)"
    by (metis prod_cases4)
  have "dom (fs s) \<subseteq> ?B" "temp_path (item_name video_file) \<in> ?B"
    "temp_path (thumbnail_name_of (item_name video_file)) \<in> ?B" by auto
  from process_video_try_stage [OF this tr]
  have st: "stage_ok ?B (set_option tv \<union> set_option tp) s s1" by simp
  from run tr have s': "s' = cleanup w tv tp s1" by (simp add: process_video_def)
  from cleanup_follows [OF stage_ok_end [OF st], of w tv tp]
  have cl: "stage_ok ?B {} s1 s'" by (simp add: s')
  from follows_trans [OF st [unfolded stage_ok_def, THEN conjunct1]
      cl [unfolded stage_ok_def, THEN conjunct1]]
  show ?thesis .
qed

lemma process_video_extends: "process_video w video_file folder_path s = (r, s') \<Longrightarrow> extends s s'"
  by (rule follows_extends [OF process_video_follows])

lemma append_to_sheet_extends: "append_to_sheet w data_row s = (r, s') \<Longrightarrow> extends s s'"
  using append_to_sheet_follows [of w data_row s r s'] by (auto dest: follows_extends)

lemma list_call_extends: "extends s (log (ListCall folder_id None) s)"
  by (simp add: extends_def log_def)

lemma traverse_folder_extends:
  assumes "traverse_folder n w folder_id current_path s = Some (r, s')"
  shows "extends s s'"
proof (rule traverse_folder_preserves [where P = extends, OF _ _ _ _ _ assms])
  show "extends s s" for s by (rule extends_refl)
  show "extends s s2" if "extends s s1" "extends s1 s2" for s s1 s2 using that by (rule extends_trans)
  show "extends s (log (ListCall f None) s)" for f s by (rule list_call_extends)
  show "extends s s1" if "process_video w item p s = (r, s1)" for item p s r s1
    using that by (rule process_video_extends)
  show "extends s s1" if "append_to_sheet w data_row s = (r, s1)" for data_row s r s1
    using that by (rule append_to_sheet_extends)
qed

lemma traverse_items_extends:
  assumes "traverse_items n w items current_path s = Some (r, s')"
  shows "extends s s'"
proof (rule traverse_items_preserves [where P = extends, OF _ _ _ _ _ assms])
  show "extends s s" for s by (rule extends_refl)
  show "extends s s2" if "extends s s1" "extends s1 s2" for s s1 s2 using that by (rule extends_trans)
  show "extends s s1" if "process_video w item p s = (r, s1)" for item p s r s1
    using that by (rule process_video_extends)
  show "extends s s1" if "append_to_sheet w data_row s = (r, s1)" for data_row s r s1
    using that by (rule append_to_sheet_extends)
  show "extends s s1" if "traverse_folder n w f p s = Some (r, s1)" for f p s r s1
    using that by (rule traverse_folder_extends)
qed

lemma write_video_events:
  "write_video w path content s = (r, s1) \<Longrightarrow> \<exists>new. events s1 = events s @ new"
  by (auto simp: write_video_def log_def Let_def split: option.splits)

lemma process_video_try_download_first:
  assumes "process_video_try w file_id file_name folder_path s = (r, tv, tp, s1)"
  shows "\<exists>rest. events s1 = events s @ DownloadCall file_id # rest"
  using assms
  by (auto simp: process_video_try_def download_def seek_and_read_def log_def Let_def
      dest!: upload_thumbnail_events write_video_events
      split: option.splits prod.splits if_splits sum.splits)

lemma process_video_download_first:
  assumes "process_video w video_file folder_path s = (r, s')"
  shows "DownloadCall (item_id video_file) \<in> set (new_events s s')"
proof -
  obtain r1 tv tp s1 where tr:
    "process_video_try w (item_id video_file) (item_name video_file) folder_path s = (r1, tv, tp, s1)"
    by (metis prod_cases4)
  from process_video_try_download_first [OF tr] obtain rest where
    1: "events s1 = events s @ DownloadCall (item_id video_file) # rest" by blast
  from assms tr have "s' = cleanup w tv tp s1" by (simp add: process_video_def)
  with cleanup_events [of w tv tp s1] obtain new where "events s' = events s1 @ new" by auto
  with 1 show ?thesis by (simp add: new_events_def)
qed

lemma traverse_folder_list_first:
  assumes "traverse_folder n w folder_id current_path s = Some (r, s')"
  shows "ListCall folder_id None \<in> set (new_events s s')"
proof (cases n)
  case 0
  with assms show ?thesis by simp
next
  case (Suc m)
  let ?s1 = "log (ListCall folder_id None) s"
  have "extends ?s1 s'"
  proof (cases "files_list w folder_id None")
    case (Inl e)
    with assms Suc have "s' = ?s1" by (simp add: Let_def)
    then show ?thesis by (simp add: extends_refl)
  next
    case (Inr results)
    with assms Suc obtain r2 where
      "traverse_items m w (case files results of None \<Rightarrow> [] | Some xs \<Rightarrow> xs) current_path ?s1
         = Some (r2, s')"
      by (auto simp: Let_def split: option.splits)
    then show ?thesis by (rule traverse_items_extends)
  qed
  then show ?thesis by (auto simp: extends_def new_events_def log_def)
qed

lemma is_video_mime:
  "is_video item \<Longrightarrow>
   (case mimeType item of None \<Rightarrow> [] | Some m \<Rightarrow> m) \<noteq> ''application/vnd.google-apps.folder'' \<and>
   prefix ''video/'' (case mimeType item of None \<Rightarrow> [] | Some m \<Rightarrow> m)"
  by (auto simp: is_video_def dest: video_mime_not_folder split: option.splits)

lemma is_folder_mime:
  "is_folder item \<longleftrightarrow>
   (case mimeType item of None \<Rightarrow> [] | Some m \<Rightarrow> m) = ''application/vnd.google-apps.folder''"
  by (auto simp: is_folder_def split: option.splits)

lemma traverse_items_returns:
  assumes folder: "\<And>f p s. within_depth n w f \<Longrightarrow> \<exists>r s'. traverse_folder n w f p s = Some (r, s')"
  shows "\<forall>item \<in> set items. is_folder item \<longrightarrow> within_depth n w (item_id item) \<Longrightarrow>
         \<exists>r s'. traverse_items n w items current_path s = Some (r, s')"
proof (induction items arbitrary: s)
  case Nil
  then show ?case by simp
next
  case (Cons item items)
  let ?mime = "case mimeType item of None \<Rightarrow> [] | Some m \<Rightarrow> m"
  from Cons.prems have rest: "\<exists>r s'. traverse_items n w items current_path t = Some (r, s')" for t
    by (intro Cons.IH) simp
  show ?case
  proof (cases "is_folder item")
    case True
    with Cons.prems have "within_depth n w (item_id item)" by simp
    from folder [OF this] obtain rf s1 where
      "traverse_folder n w (item_id item) (current_path @ ''/'' @ item_name item) s = Some (rf, s1)"
      by blast
    with True rest [of s1] show ?thesis
      by (cases rf) (auto simp: is_folder_mime)
  next
    case False
    obtain rv s1 where v: "process_video w item current_path s = (rv, s1)" by fastforce
    show ?thesis
    proof (cases rv)
      case (Inl e)
      with False v rest [of s] show ?thesis by (auto simp: is_folder_mime)
    next
      case (Inr log_data)
      obtain ra s2 where a: "append_to_sheet w (map_option cells log_data) s1 = (ra, s2)"
        by fastforce
      with False v Inr rest [of s] rest [of s2] show ?thesis
        by (cases ra) (auto simp: is_folder_mime)
    qed
  qed
qed

lemma traverse_folder_returns:
  "within_depth n w folder_id \<Longrightarrow> \<exists>r s'. traverse_folder n w folder_id current_path s = Some (r, s')"
proof (induction n arbitrary: folder_id current_path s)
  case 0
  then show ?case by simp
next
  case (Suc n)
  show ?case
  proof (cases "files_list w folder_id None")
    case (Inl e)
    then show ?thesis by (simp add: Let_def)
  next
    case (Inr results)
    with Suc.prems have "\<forall>item \<in> set (case files results of None \<Rightarrow> [] | Some xs \<Rightarrow> xs).
        is_folder item \<longrightarrow> within_depth n w (item_id item)"
      by simp
    from traverse_items_returns [of n w, OF Suc.IH this]
    obtain r2 s2 where "traverse_items n w (case files results of None \<Rightarrow> [] | Some xs \<Rightarrow> xs)
       current_path (log (ListCall folder_id None) s) = Some (r2, s2)"
      by blast
    with Inr show ?thesis by (simp add: Let_def)
  qed
qed

section \<open>Isolation of remote errors\<close>

lemma process_video_download_fails:
  assumes "next_chunks (get_media w (item_id video_file)) [] = Inl HttpError"
  shows "fst (process_video w video_file folder_path s) = Inr None"
  using assms
  by (simp add: process_video_def process_video_try_def download_def except_HttpError_def)

lemma process_video_upload_fails:
  assumes w: "raises_only_HttpError w"
    and up: "\<forall>media. \<exists>e. files_create w
        \<lparr>md_name = thumbnail_name_of (item_name video_file),
         md_parents = [THUMBNAIL_FOLDER_ID w]\<rparr> media = Inl e"
  shows "fst (process_video w video_file folder_path s) = Inr None"
proof -
  from process_video_no_raise [OF w] obtain log_data where
    r: "fst (process_video w video_file folder_path s) = Inr log_data" by blast
  show ?thesis
  proof (cases log_data)
    case None
    with r show ?thesis by simp
  next
    case (Some t)
    obtain n p l where t: "t = (n, p, l)" by (cases t)
    from r Some t have "process_video w video_file folder_path s =
        (Inr (Some (n, p, l)), snd (process_video w video_file folder_path s))"
      by (simp add: prod_eq_iff)
    from process_video_Some [OF this] up show ?thesis by (metis sum.distinct(1))
  qed
qed

lemma except_HttpError_not_HttpError: "except_HttpError v r \<noteq> Inl HttpError"
  by (auto simp: except_HttpError_def split: sum.splits)

lemma except_HttpError_other: "e \<noteq> HttpError \<Longrightarrow> except_HttpError v (Inl e) = Inl e"
  by (simp add: except_HttpError_def)

lemma process_video_fst:
  "fst (process_video w video_file folder_path s) =
     except_HttpError None
       (fst (process_video_try w (item_id video_file) (item_name video_file) folder_path s))"
  by (simp add: process_video_def Let_def split: prod.splits)

lemma process_video_not_HttpError:
  "fst (process_video w video_file folder_path s) \<noteq> Inl HttpError"
  by (simp add: process_video_fst except_HttpError_not_HttpError)

lemma process_video_try_HttpError:
  "fst (process_video_try w (item_id video_file) (item_name video_file) folder_path s) = Inl HttpError \<Longrightarrow>
   fst (process_video w video_file folder_path s) = Inr None"
  by (simp add: process_video_fst except_HttpError_def)

lemma process_video_try_other:
  "e \<noteq> HttpError \<Longrightarrow>
   fst (process_video_try w (item_id video_file) (item_name video_file) folder_path s) = Inl e \<Longrightarrow>
   fst (process_video w video_file folder_path s) = Inl e"
  by (simp add: process_video_fst except_HttpError_def)

lemma process_video_try_download_raises:
  "next_chunks (get_media w file_id) [] = Inl e \<Longrightarrow>
   fst (process_video_try w file_id file_name folder_path s) = Inl e"
  by (simp add: process_video_try_def download_def)

lemma process_video_try_open_raises:
  "next_chunks (get_media w file_id) [] = Inr content \<Longrightarrow>
   fs_open_wb w (temp_path file_name) = Some e \<Longrightarrow>
   fst (process_video_try w file_id file_name folder_path s) = Inl e"
  by (simp add: process_video_try_def download_def write_video_def Let_def)

lemma process_video_try_write_raises:
  "next_chunks (get_media w file_id) [] = Inr content \<Longrightarrow>
   fs_open_wb w (temp_path file_name) = None \<Longrightarrow>
   fs_write w (temp_path file_name) = Some e \<Longrightarrow>
   fst (process_video_try w file_id file_name folder_path s) = Inl e"
  by (simp add: process_video_try_def download_def write_video_def Let_def)

lemma upload_thumbnail_create_raises:
  "cv_imwrite w (temp_path (thumbnail_name_of file_name)) \<Longrightarrow>
   files_create w \<lparr>md_name = thumbnail_name_of file_name,
                   md_parents = [THUMBNAIL_FOLDER_ID w]\<rparr> img = Inl e \<Longrightarrow>
   fst (upload_thumbnail w file_name folder_path img s) = Inl e"
  by (simp add: upload_thumbnail_def Let_def log_def)

lemma process_video_try_upload_raises:
  assumes "next_chunks (get_media w file_id) [] = Inr content"
    and "fs_open_wb w (temp_path file_name) = None"
    and "fs_write w (temp_path file_name) = None"
    and "cap_fps w content \<noteq> Finite 0"
    and "py_int (float_mul w (cap_fps w content) (CAPTURE_TIMESTAMP_SECONDS w)) = Inr frame_id"
    and "cap_read w content frame_id = (True, Some img)"
    and "cv_imwrite w (temp_path (thumbnail_name_of file_name))"
    and "files_create w \<lparr>md_name = thumbnail_name_of file_name,
                          md_parents = [THUMBNAIL_FOLDER_ID w]\<rparr> img = Inl e"
  shows "fst (process_video_try w file_id file_name folder_path s) = Inl e"
proof -
  have "x1 = Inl e" if "upload_thumbnail w file_name folder_path img t = (x1, a, b)" for t x1 a b
    using upload_thumbnail_create_raises [OF assms(7,8), of folder_path t] that by simp
  with assms(1-6) show ?thesis
    by (auto simp: process_video_try_def download_def log_def write_video_ok video_fps_def Let_def
        seek_and_read_def split: prod.splits)
qed

lemma traverse_folder_not_HttpError:
  "traverse_folder n w folder_id current_path s = Some (r, s') \<Longrightarrow> r \<noteq> Inl HttpError"
  by (cases n) (auto simp: Let_def except_HttpError_not_HttpError split: sum.splits option.splits)

lemma traverse_folder_listing_raises:
  "e \<noteq> HttpError \<Longrightarrow> files_list w folder_id None = Inl e \<Longrightarrow>
   traverse_folder (Suc n) w folder_id current_path s =
     Some (Inl e, log (ListCall folder_id None) s)"
  by (simp add: Let_def except_HttpError_def)

lemma traverse_folder_items_raise:
  "e \<noteq> HttpError \<Longrightarrow> files_list w folder_id None = Inr results \<Longrightarrow>
   traverse_items n w (case files results of None \<Rightarrow> [] | Some xs \<Rightarrow> xs) current_path
     (log (ListCall folder_id None) s) = Some (Inl e, s') \<Longrightarrow>
   traverse_folder (Suc n) w folder_id current_path s = Some (Inl e, s')"
  by (simp add: Let_def except_HttpError_def)

lemma traverse_items_video_raises:
  "is_video item \<Longrightarrow> fst (process_video w item current_path s) = Inl e \<Longrightarrow>
   traverse_items n w (item # items) current_path s =
     Some (Inl e, snd (process_video w item current_path s))"
  by (frule is_video_mime) (auto simp: Let_def split: prod.splits sum.splits)

lemma traverse_items_append_raises:
  "is_video item \<Longrightarrow> process_video w item current_path s = (Inr log_data, s1) \<Longrightarrow>
   append_to_sheet w (map_option cells log_data) s1 = (Inl e, s2) \<Longrightarrow>
   traverse_items n w (item # items) current_path s = Some (Inl e, s2)"
  by (frule is_video_mime) (auto simp: Let_def split: prod.splits sum.splits)

lemma traverse_items_folder_raises:
  "is_folder item \<Longrightarrow>
   traverse_folder n w (item_id item) (current_path @ ''/'' @ item_name item) s = Some (Inl e, s') \<Longrightarrow>
   traverse_items n w (item # items) current_path s = Some (Inl e, s')"
  by (simp add: is_folder_mime Let_def)

lemma traverse_items_stops:
  "traverse_items n w items current_path s = Some (Inl e, s') \<Longrightarrow>
   traverse_items n w (items @ rest) current_path s = Some (Inl e, s')"
proof (induction items arbitrary: s)
  case Nil
  then show ?case by simp
next
  case (Cons item items)
  from Cons.prems show ?case
    by (auto simp: Let_def Cons.IH split: if_splits option.splits sum.splits prod.splits)
qed

lemma traverse_items_visits_all:
  "traverse_items n w items current_path s = Some (Inr (), s') \<Longrightarrow>
         \<forall>item \<in> set items.
           (is_video item \<longrightarrow> DownloadCall (item_id item) \<in> set (new_events s s')) \<and>
           (is_folder item \<longrightarrow> ListCall (item_id item) None \<in> set (new_events s s'))"
proof (induction items arbitrary: s)
  case Nil
  then show ?case by simp
next
  case (Cons item items)
  let ?mime = "case mimeType item of None \<Rightarrow> [] | Some m \<Rightarrow> m"
  have step: "\<exists>s1. extends s s1 \<and> traverse_items n w items current_path s1 = Some (Inr (), s') \<and>
     (is_video item \<longrightarrow> DownloadCall (item_id item) \<in> set (new_events s s1)) \<and>
     (is_folder item \<longrightarrow> ListCall (item_id item) None \<in> set (new_events s s1))"
  proof (cases "is_folder item")
    case True
    then have m: "?mime = ''application/vnd.google-apps.folder''" by (simp add: is_folder_mime)
    with Cons.prems obtain rf s1 where
      f: "traverse_folder n w (item_id item) (current_path @ ''/'' @ item_name item) s = Some (rf, s1)"
      by (auto split: option.splits)
    from Cons.prems m f have "rf = Inr ()" by (cases rf) auto
    with Cons.prems m f have rest: "traverse_items n w items current_path s1 = Some (Inr (), s')"
      by simp
    from True have "\<not> is_video item" by (auto simp: is_folder_def is_video_def prefix_def)
    with traverse_folder_extends [OF f] traverse_folder_list_first [OF f] rest show ?thesis
      by blast
  next
    case False
    then have nf: "?mime \<noteq> ''application/vnd.google-apps.folder''" by (simp add: is_folder_mime)
    show ?thesis
    proof (cases "is_video item")
      case True
      obtain rv s1 where v: "process_video w item current_path s = (rv, s1)" by fastforce
      from Cons.prems is_video_mime [OF True] v obtain log_data where rv: "rv = Inr log_data"
        by (cases rv) auto
      obtain ra s2 where a: "append_to_sheet w (map_option cells log_data) s1 = (ra, s2)"
        by fastforce
      from Cons.prems is_video_mime [OF True] v rv a have ra: "ra = Inr ()"
        by (cases ra) auto
      from Cons.prems is_video_mime [OF True] v a rv ra
      have rest: "traverse_items n w items current_path s2 = Some (Inr (), s')" by simp
      note e1 = process_video_extends [OF v] and e2 = append_to_sheet_extends [OF a]
      from process_video_download_first [OF v]
      have "DownloadCall (item_id item) \<in> set (new_events s s2)"
        by (simp add: new_events_extends [OF e1 e2])
      with extends_trans [OF e1 e2] rest False show ?thesis by blast
    next
      case False
      then have "\<not> prefix ''video/'' ?mime" by (auto simp: is_video_def split: option.splits)
      with Cons.prems nf have "traverse_items n w items current_path s = Some (Inr (), s')" by simp
      with False \<open>\<not> is_folder item\<close> extends_refl [of s] show ?thesis by blast
    qed
  qed
  then obtain s1 where s1: "extends s s1" "traverse_items n w items current_path s1 = Some (Inr (), s')"
    "is_video item \<longrightarrow> DownloadCall (item_id item) \<in> set (new_events s s1)"
    "is_folder item \<longrightarrow> ListCall (item_id item) None \<in> set (new_events s s1)"
    by blast
  note n = new_events_extends [OF s1(1) traverse_items_extends [OF s1(2)]]
  from Cons.IH [OF s1(2)] s1(3,4) show ?case by (auto simp: n)
qed

text \<open>
  Claim C4, amended to the exception class the handlers name. In every environment: an
  \<open>HttpError\<close> while listing a folder ends the walk of that folder normally after the one
  listing request; an \<open>HttpError\<close> raised anywhere in the body of \<open>process_video\<close>, by the
  download or by the upload in particular, makes it return \<open>None\<close>; neither \<open>process_video\<close> nor
  \<open>traverse_folder\<close> ever ends with an \<open>HttpError\<close>; and a walk over the entries of a
  folder that returns normally has sent the download request of every video among them and
  the listing request of every folder among them. When the environment raises nothing but
  \<open>HttpError\<close> from the Drive requests (and, from the append requests, the exceptions the
  retry loop catches; local file operations succeed and \<^verbatim>\<open>int()\<close> gets a finite product):
  \<open>process_video\<close> never raises, and returns \<open>None\<close> when the upload fails; a walk over
  a folder tree of bounded depth returns normally; and a walk over the entries of a folder
  that returns does so normally. An exception \<open>e\<close> of any other class is not caught: raised
  by the listing request, it leaves \<open>traverse_folder\<close> right after that request; raised in
  the body of \<open>process_video\<close> (by the download, by opening or writing the temporary file,
  by \<^verbatim>\<open>int()\<close>, by the upload), it leaves \<open>process_video\<close>; raised by the loop over the
  entries, it leaves \<open>traverse_folder\<close>. And an exception that leaves \<open>process_video\<close>,
  \<open>append_to_sheet\<close> or the walk of a subfolder ends the loop over the entries at that
  entry, whatever entries follow.
\<close>

theorem http_errors_are_isolated:
  "(files_list w folder_id None = Inl HttpError \<longrightarrow>
      traverse_folder (Suc n) w folder_id current_path s =
        Some (Inr (), log (ListCall folder_id None) s)) \<and>
   fst (process_video w video_file current_path s) \<noteq> Inl HttpError \<and>
   (fst (process_video_try w (item_id video_file) (item_name video_file) current_path s) =
      Inl HttpError \<longrightarrow>
      fst (process_video w video_file current_path s) = Inr None) \<and>
   (next_chunks (get_media w (item_id video_file)) [] = Inl HttpError \<longrightarrow>
      fst (process_video w video_file current_path s) = Inr None) \<and>
   (traverse_folder n w folder_id current_path s = Some (r, s') \<longrightarrow> r \<noteq> Inl HttpError) \<and>
   (traverse_items n w items current_path s = Some (Inr (), s') \<longrightarrow>
      (\<forall>item \<in> set items.
         (is_video item \<longrightarrow> DownloadCall (item_id item) \<in> set (new_events s s')) \<and>
         (is_folder item \<longrightarrow> ListCall (item_id item) None \<in> set (new_events s s')))) \<and>
   (raises_only_HttpError w \<longrightarrow>
      (\<exists>log_data. fst (process_video w video_file current_path s) = Inr log_data) \<and>
      ((\<forall>media. \<exists>e. files_create w
           \<lparr>md_name = thumbnail_name_of (item_name video_file),
            md_parents = [THUMBNAIL_FOLDER_ID w]\<rparr> media = Inl e) \<longrightarrow>
         fst (process_video w video_file current_path s) = Inr None) \<and>
      (within_depth n w folder_id \<longrightarrow>
         (\<exists>s'. traverse_folder n w folder_id current_path s = Some (Inr (), s'))) \<and>
      (traverse_items n w items current_path s = Some (r, s') \<longrightarrow> r = Inr ())) \<and>
   (e \<noteq> HttpError \<longrightarrow>
      (files_list w folder_id None = Inl e \<longrightarrow>
         traverse_folder (Suc n) w folder_id current_path s =
           Some (Inl e, log (ListCall folder_id None) s)) \<and>
      (fst (process_video_try w (item_id video_file) (item_name video_file) current_path s) =
         Inl e \<longrightarrow>
         fst (process_video w video_file current_path s) = Inl e) \<and>
      (next_chunks (get_media w (item_id video_file)) [] = Inl e \<longrightarrow>
         fst (process_video w video_file current_path s) = Inl e) \<and>
      (\<forall>content.
         next_chunks (get_media w (item_id video_file)) [] = Inr content \<and>
         (fs_open_wb w (temp_path (item_name video_file)) = Some e \<or>
          fs_open_wb w (temp_path (item_name video_file)) = None \<and>
          fs_write w (temp_path (item_name video_file)) = Some e) \<longrightarrow>
         fst (process_video w video_file current_path s) = Inl e) \<and>
      (\<forall>content.
         next_chunks (get_media w (item_id video_file)) [] = Inr content \<and>
         fs_open_wb w (temp_path (item_name video_file)) = None \<and>
         fs_write w (temp_path (item_name video_file)) = None \<and>
         cap_fps w content \<noteq> Finite 0 \<and>
         py_int (float_mul w (cap_fps w content) (CAPTURE_TIMESTAMP_SECONDS w)) = Inl e \<longrightarrow>
         fst (process_video w video_file current_path s) = Inl e) \<and>
      (\<forall>content frame_id img.
         next_chunks (get_media w (item_id video_file)) [] = Inr content \<and>
         fs_open_wb w (temp_path (item_name video_file)) = None \<and>
         fs_write w (temp_path (item_name video_file)) = None \<and>
         cap_fps w content \<noteq> Finite 0 \<and>
         py_int (float_mul w (cap_fps w content) (CAPTURE_TIMESTAMP_SECONDS w)) = Inr frame_id \<and>
         cap_read w content frame_id = (True, Some img) \<and>
         cv_imwrite w (temp_path (thumbnail_name_of (item_name video_file))) \<and>
         files_create w \<lparr>md_name = thumbnail_name_of (item_name video_file),
                         md_parents = [THUMBNAIL_FOLDER_ID w]\<rparr> img = Inl e \<longrightarrow>
         fst (process_video w video_file current_path s) = Inl e) \<and>
      (\<forall>results.
         files_list w folder_id None = Inr results \<and>
         traverse_items n w (case files results of None \<Rightarrow> [] | Some xs \<Rightarrow> xs) current_path
           (log (ListCall folder_id None) s) = Some (Inl e, s') \<longrightarrow>
         traverse_folder (Suc n) w folder_id current_path s = Some (Inl e, s'))) \<and>
   (is_video item \<and> fst (process_video w item current_path s) = Inl e \<longrightarrow>
      traverse_items n w (item # items) current_path s =
        Some (Inl e, snd (process_video w item current_path s))) \<and>
   (\<forall>log_data s1.
      is_video item \<and> process_video w item current_path s = (Inr log_data, s1) \<and>
      append_to_sheet w (map_option cells log_data) s1 = (Inl e, s') \<longrightarrow>
      traverse_items n w (item # items) current_path s = Some (Inl e, s')) \<and>
   (is_folder item \<and>
    traverse_folder n w (item_id item) (current_path @ ''/'' @ item_name item) s =
      Some (Inl e, s') \<longrightarrow>
      traverse_items n w (item # items) current_path s = Some (Inl e, s')) \<and>
   (traverse_items n w items current_path s = Some (Inl e, s') \<longrightarrow>
      traverse_items n w (items @ rest) current_path s = Some (Inl e, s')) \<and>
   (\<forall>content frame_id img.
      next_chunks (get_media w (item_id video_file)) [] = Inr content \<and>
      fs_open_wb w (temp_path (item_name video_file)) = None \<and>
      fs_write w (temp_path (item_name video_file)) = None \<and>
      cap_fps w content \<noteq> Finite 0 \<and>
      py_int (float_mul w (cap_fps w content) (CAPTURE_TIMESTAMP_SECONDS w)) = Inr frame_id \<and>
      cap_read w content frame_id = (True, Some img) \<and>
      cv_imwrite w (temp_path (thumbnail_name_of (item_name video_file))) \<and>
      files_create w \<lparr>md_name = thumbnail_name_of (item_name video_file),
                      md_parents = [THUMBNAIL_FOLDER_ID w]\<rparr> img = Inl HttpError \<longrightarrow>
      fst (process_video w video_file current_path s) = Inr None)"
proof -
  let ?id = "item_id video_file" and ?name = "item_name video_file"
  have c1: "files_list w folder_id None = Inl HttpError \<longrightarrow>
      traverse_folder (Suc n) w folder_id current_path s =
        Some (Inr (), log (ListCall folder_id None) s)"
    by (simp add: Let_def except_HttpError_def)
  have c2: "fst (process_video w video_file current_path s) \<noteq> Inl HttpError"
    by (rule process_video_not_HttpError)
  have c3: "fst (process_video_try w ?id ?name current_path s) = Inl HttpError \<longrightarrow>
      fst (process_video w video_file current_path s) = Inr None"
    by (simp add: process_video_try_HttpError)
  have c4: "next_chunks (get_media w ?id) [] = Inl HttpError \<longrightarrow>
      fst (process_video w video_file current_path s) = Inr None"
    by (simp add: process_video_download_fails)
  have c5: "traverse_folder n w folder_id current_path s = Some (r, s') \<longrightarrow> r \<noteq> Inl HttpError"
    by (auto dest: traverse_folder_not_HttpError)
  have c6: "traverse_items n w items current_path s = Some (Inr (), s') \<longrightarrow>
      (\<forall>item \<in> set items.
         (is_video item \<longrightarrow> DownloadCall (item_id item) \<in> set (new_events s s')) \<and>
         (is_folder item \<longrightarrow> ListCall (item_id item) None \<in> set (new_events s s')))"
    by (rule impI, rule traverse_items_visits_all)
  have c7: "raises_only_HttpError w \<longrightarrow>
      (\<exists>log_data. fst (process_video w video_file current_path s) = Inr log_data) \<and>
      ((\<forall>media. \<exists>e. files_create w
           \<lparr>md_name = thumbnail_name_of ?name,
            md_parents = [THUMBNAIL_FOLDER_ID w]\<rparr> media = Inl e) \<longrightarrow>
         fst (process_video w video_file current_path s) = Inr None) \<and>
      (within_depth n w folder_id \<longrightarrow>
         (\<exists>s'. traverse_folder n w folder_id current_path s = Some (Inr (), s'))) \<and>
      (traverse_items n w items current_path s = Some (r, s') \<longrightarrow> r = Inr ())"
  proof (intro impI conjI)
    assume w: "raises_only_HttpError w"
    show "\<exists>log_data. fst (process_video w video_file current_path s) = Inr log_data"
      by (rule process_video_no_raise [OF w])
    show "fst (process_video w video_file current_path s) = Inr None"
      if "\<forall>media. \<exists>e. files_create w
           \<lparr>md_name = thumbnail_name_of ?name,
            md_parents = [THUMBNAIL_FOLDER_ID w]\<rparr> media = Inl e"
      using w that by (rule process_video_upload_fails)
    show "\<exists>s'. traverse_folder n w folder_id current_path s = Some (Inr (), s')"
      if "within_depth n w folder_id"
    proof -
      from traverse_folder_returns [OF that] obtain r1 s1 where
        t: "traverse_folder n w folder_id current_path s = Some (r1, s1)" by blast
      from traverse_folder_no_raise [OF w t] t show ?thesis by simp
    qed
    show "r = Inr ()" if "traverse_items n w items current_path s = Some (r, s')"
      by (rule traverse_items_no_raise [OF w traverse_folder_no_raise [OF w] that])
  qed
  have c8: "e \<noteq> HttpError \<longrightarrow>
      (files_list w folder_id None = Inl e \<longrightarrow>
         traverse_folder (Suc n) w folder_id current_path s =
           Some (Inl e, log (ListCall folder_id None) s)) \<and>
      (fst (process_video_try w ?id ?name current_path s) = Inl e \<longrightarrow>
         fst (process_video w video_file current_path s) = Inl e) \<and>
      (next_chunks (get_media w ?id) [] = Inl e \<longrightarrow>
         fst (process_video w video_file current_path s) = Inl e) \<and>
      (\<forall>content.
         next_chunks (get_media w ?id) [] = Inr content \<and>
         (fs_open_wb w (temp_path ?name) = Some e \<or>
          fs_open_wb w (temp_path ?name) = None \<and> fs_write w (temp_path ?name) = Some e) \<longrightarrow>
         fst (process_video w video_file current_path s) = Inl e) \<and>
      (\<forall>content.
         next_chunks (get_media w ?id) [] = Inr content \<and>
         fs_open_wb w (temp_path ?name) = None \<and>
         fs_write w (temp_path ?name) = None \<and>
         cap_fps w content \<noteq> Finite 0 \<and>
         py_int (float_mul w (cap_fps w content) (CAPTURE_TIMESTAMP_SECONDS w)) = Inl e \<longrightarrow>
         fst (process_video w video_file current_path s) = Inl e) \<and>
      (\<forall>content frame_id img.
         next_chunks (get_media w ?id) [] = Inr content \<and>
         fs_open_wb w (temp_path ?name) = None \<and>
         fs_write w (temp_path ?name) = None \<and>
         cap_fps w content \<noteq> Finite 0 \<and>
         py_int (float_mul w (cap_fps w content) (CAPTURE_TIMESTAMP_SECONDS w)) = Inr frame_id \<and>
         cap_read w content frame_id = (True, Some img) \<and>
         cv_imwrite w (temp_path (thumbnail_name_of ?name)) \<and>
         files_create w \<lparr>md_name = thumbnail_name_of ?name,
                         md_parents = [THUMBNAIL_FOLDER_ID w]\<rparr> img = Inl e \<longrightarrow>
         fst (process_video w video_file current_path s) = Inl e) \<and>
      (\<forall>results.
         files_list w folder_id None = Inr results \<and>
         traverse_items n w (case files results of None \<Rightarrow> [] | Some xs \<Rightarrow> xs) current_path
           (log (ListCall folder_id None) s) = Some (Inl e, s') \<longrightarrow>
         traverse_folder (Suc n) w folder_id current_path s = Some (Inl e, s'))"
  proof (intro impI conjI allI)
    assume e: "e \<noteq> HttpError"
    note out = process_video_try_other [OF e]
    show "traverse_folder (Suc n) w folder_id current_path s =
           Some (Inl e, log (ListCall folder_id None) s)"
      if "files_list w folder_id None = Inl e"
      using e that by (rule traverse_folder_listing_raises)
    show "fst (process_video w video_file current_path s) = Inl e"
      if "fst (process_video_try w ?id ?name current_path s) = Inl e"
      using that by (rule out)
    show "fst (process_video w video_file current_path s) = Inl e"
      if "next_chunks (get_media w ?id) [] = Inl e"
      by (rule out [OF process_video_try_download_raises [OF that]])
    show "fst (process_video w video_file current_path s) = Inl e"
      if "next_chunks (get_media w ?id) [] = Inr content \<and>
         (fs_open_wb w (temp_path ?name) = Some e \<or>
          fs_open_wb w (temp_path ?name) = None \<and> fs_write w (temp_path ?name) = Some e)"
      for content
    proof -
      from that have dl: "next_chunks (get_media w ?id) [] = Inr content" by simp
      from that consider "fs_open_wb w (temp_path ?name) = Some e"
        | "fs_open_wb w (temp_path ?name) = None" "fs_write w (temp_path ?name) = Some e"
        by auto
      then show ?thesis
      proof cases
        case 1
        show ?thesis by (rule out [OF process_video_try_open_raises [OF dl 1]])
      next
        case 2
        show ?thesis by (rule out [OF process_video_try_write_raises [OF dl 2]])
      qed
    qed
    show "fst (process_video w video_file current_path s) = Inl e"
      if h: "next_chunks (get_media w ?id) [] = Inr content \<and>
         fs_open_wb w (temp_path ?name) = None \<and>
         fs_write w (temp_path ?name) = None \<and>
         cap_fps w content \<noteq> Finite 0 \<and>
         py_int (float_mul w (cap_fps w content) (CAPTURE_TIMESTAMP_SECONDS w)) = Inl e"
      for content
    proof -
      from h have "process_video_try w ?id ?name current_path s =
           (Inl e, Some (temp_path ?name), None,
            s\<lparr>fs := (fs s)(temp_path ?name \<mapsto> content),
              events := events s @ [DownloadCall ?id, FileCreated (temp_path ?name)]\<rparr>)"
        by (intro process_video_try_int_raises) simp_all
      then show ?thesis by (intro out) simp
    qed
    show "fst (process_video w video_file current_path s) = Inl e"
      if h: "next_chunks (get_media w ?id) [] = Inr content \<and>
         fs_open_wb w (temp_path ?name) = None \<and>
         fs_write w (temp_path ?name) = None \<and>
         cap_fps w content \<noteq> Finite 0 \<and>
         py_int (float_mul w (cap_fps w content) (CAPTURE_TIMESTAMP_SECONDS w)) = Inr frame_id \<and>
         cap_read w content frame_id = (True, Some img) \<and>
         cv_imwrite w (temp_path (thumbnail_name_of ?name)) \<and>
         files_create w \<lparr>md_name = thumbnail_name_of ?name,
                         md_parents = [THUMBNAIL_FOLDER_ID w]\<rparr> img = Inl e"
      for content frame_id img
      using h by (intro out process_video_try_upload_raises [where content = content
            and frame_id = frame_id and img = img]) simp_all
    show "traverse_folder (Suc n) w folder_id current_path s = Some (Inl e, s')"
      if "files_list w folder_id None = Inr results \<and>
         traverse_items n w (case files results of None \<Rightarrow> [] | Some xs \<Rightarrow> xs) current_path
           (log (ListCall folder_id None) s) = Some (Inl e, s')"
      for results
      using that e by (intro traverse_folder_items_raise [where results = results]) simp_all
  qed
  have c9: "is_video item \<and> fst (process_video w item current_path s) = Inl e \<longrightarrow>
      traverse_items n w (item # items) current_path s =
        Some (Inl e, snd (process_video w item current_path s))"
    using traverse_items_video_raises by blast
  have c10: "\<forall>log_data s1.
      is_video item \<and> process_video w item current_path s = (Inr log_data, s1) \<and>
      append_to_sheet w (map_option cells log_data) s1 = (Inl e, s') \<longrightarrow>
      traverse_items n w (item # items) current_path s = Some (Inl e, s')"
    using traverse_items_append_raises by blast
  have c11: "is_folder item \<and>
    traverse_folder n w (item_id item) (current_path @ ''/'' @ item_name item) s =
      Some (Inl e, s') \<longrightarrow>
      traverse_items n w (item # items) current_path s = Some (Inl e, s')"
    using traverse_items_folder_raises by blast
  have c12: "traverse_items n w items current_path s = Some (Inl e, s') \<longrightarrow>
      traverse_items n w (items @ rest) current_path s = Some (Inl e, s')"
    using traverse_items_stops by blast
  have c13: "\<forall>content frame_id img.
      next_chunks (get_media w ?id) [] = Inr content \<and>
      fs_open_wb w (temp_path ?name) = None \<and>
      fs_write w (temp_path ?name) = None \<and>
      cap_fps w content \<noteq> Finite 0 \<and>
      py_int (float_mul w (cap_fps w content) (CAPTURE_TIMESTAMP_SECONDS w)) = Inr frame_id \<and>
      cap_read w content frame_id = (True, Some img) \<and>
      cv_imwrite w (temp_path (thumbnail_name_of ?name)) \<and>
      files_create w \<lparr>md_name = thumbnail_name_of ?name,
                      md_parents = [THUMBNAIL_FOLDER_ID w]\<rparr> img = Inl HttpError \<longrightarrow>
      fst (process_video w video_file current_path s) = Inr None"
  proof (intro allI impI)
    fix content frame_id img
    assume "next_chunks (get_media w ?id) [] = Inr content \<and>
      fs_open_wb w (temp_path ?name) = None \<and>
      fs_write w (temp_path ?name) = None \<and>
      cap_fps w content \<noteq> Finite 0 \<and>
      py_int (float_mul w (cap_fps w content) (CAPTURE_TIMESTAMP_SECONDS w)) = Inr frame_id \<and>
      cap_read w content frame_id = (True, Some img) \<and>
      cv_imwrite w (temp_path (thumbnail_name_of ?name)) \<and>
      files_create w \<lparr>md_name = thumbnail_name_of ?name,
                      md_parents = [THUMBNAIL_FOLDER_ID w]\<rparr> img = Inl HttpError"
    then have "fst (process_video_try w ?id ?name current_path s) = Inl HttpError"
      by (intro process_video_try_upload_raises [where content = content
            and frame_id = frame_id and img = img]) simp_all
    then show "fst (process_video w video_file current_path s) = Inr None"
      by (rule process_video_try_HttpError)
  qed
  show ?thesis
    by (intro conjI c1 c2 c3 c4 c5 c6 c7 c8 c9 c10 c11 c12 c13)
qed

text \<open>
  Claim C4 as stated (every per-video error is caught) fails for an exception that is not
  an \<open>HttpError\<close>: when the download of the first video times out, the exception leaves
  \<open>process_video\<close> and \<open>traverse_folder\<close>, and the second video is never downloaded.
\<close>

theorem http_errors_are_isolated_counterexample:
  "map_option (\<lambda>(r, s). (r, events s, sheet s))
     (traverse_folder 1 timeout_world ''root'' ''<root>'' demo_state) =
     Some (Inl TimeoutError, [ListCall ''root'' None, DownloadCall ''a''], [])"
  by code_simp

text \<open>
  The environment with one failure of each kind, each an \<open>HttpError\<close>: the walk returns
  normally, the folder and the two failing videos are skipped, and the last video is still
  downloaded. The environment where the download of the first video times out: the
  exception leaves \<open>process_video\<close> and the walk of the root folder. The environment with an
  infinite capture timestamp: \<open>OverflowError\<close> leaves \<open>process_video\<close>.
\<close>

theorem http_errors_are_isolated_witness:
  "raises_only_HttpError http_errors_world \<and>
   within_depth 2 http_errors_world ''root'' \<and>
   (\<exists>s'. traverse_folder 2 http_errors_world ''root'' ''<root>'' demo_state = Some (Inr (), s')) \<and>
   traverse_folder 1 http_errors_world ''bad'' ''<root>/bad'' demo_state =
     Some (Inr (), log (ListCall ''bad'' None) demo_state) \<and>
   fst (process_video http_errors_world (http_errors_items ! 1) ''<root>'' demo_state) = Inr None \<and>
   fst (process_video http_errors_world (http_errors_items ! 2) ''<root>'' demo_state) = Inr None \<and>
   traverse_items 1 http_errors_world http_errors_items ''<root>'' demo_state \<noteq> None \<and>
   fst (the (traverse_items 1 http_errors_world http_errors_items ''<root>'' demo_state)) = Inr () \<and>
   DownloadCall ''b'' \<in> set (new_events demo_state
      (snd (the (traverse_items 1 http_errors_world http_errors_items ''<root>'' demo_state)))) \<and>
   fst (process_video timeout_world demo_video ''<root>''
          (log (ListCall ''root'' None) demo_state)) = Inl TimeoutError \<and>
   traverse_folder 1 timeout_world ''root'' ''<root>'' demo_state =
     Some (Inl TimeoutError,
           snd (process_video timeout_world demo_video ''<root>''
                  (log (ListCall ''root'' None) demo_state))) \<and>
   fst (process_video infinite_timestamp_world demo_video ''<root>'' demo_state) =
     Inl OverflowError"
proof -
  have w: "raises_only_HttpError http_errors_world"
    by (auto simp: raises_only_HttpError_def http_errors_world_def demo_world_def transient_def
        example_mul_def split: if_splits)
  have d: "within_depth 2 http_errors_world ''root''" by code_simp
  have l: "files_list http_errors_world ''bad'' None = Inl HttpError"
    by (simp add: http_errors_world_def)
  have a: "next_chunks (get_media http_errors_world (item_id (http_errors_items ! 1))) [] =
             Inl HttpError"
    by (simp add: http_errors_world_def http_errors_items_def)
  have u: "\<forall>media. \<exists>e. files_create http_errors_world
              \<lparr>md_name = thumbnail_name_of (item_name (http_errors_items ! 2)),
               md_parents = [THUMBNAIL_FOLDER_ID http_errors_world]\<rparr> media = Inl e"
  proof -
    have "thumbnail_name_of (item_name (http_errors_items ! 2)) = ''u_Thumbnail.jpg''"
      by code_simp
    then show ?thesis by (simp add: http_errors_world_def)
  qed
  have t: "traverse_items 1 http_errors_world http_errors_items ''<root>'' demo_state \<noteq> None"
    by code_simp
  then have run: "traverse_items 1 http_errors_world http_errors_items ''<root>'' demo_state =
    Some (fst (the (traverse_items 1 http_errors_world http_errors_items ''<root>'' demo_state)),
          snd (the (traverse_items 1 http_errors_world http_errors_items ''<root>'' demo_state)))"
    by auto
  have b: "http_errors_items ! 3 \<in> set http_errors_items" "is_video (http_errors_items ! 3)"
    "item_id (http_errors_items ! 3) = ''b''"
    by (simp_all add: http_errors_items_def is_video_def)
  have ne: "TimeoutError \<noteq> HttpError" "OverflowError \<noteq> HttpError" by simp_all
  have dt: "next_chunks (get_media timeout_world (item_id demo_video)) [] = Inl TimeoutError"
    by (simp add: timeout_world_def demo_video_def)
  have lt: "files_list timeout_world ''root'' None =
      Inr \<lparr>files = Some [demo_video,
              \<lparr>item_id = ''b'', item_name = ''b.mp4'', mimeType = Some ''video/mp4''\<rparr>],
           nextPageToken = None\<rparr>"
    by (simp add: timeout_world_def two_videos_world_def demo_world_def demo_video_def)
  have vd: "is_video demo_video" by (simp add: is_video_def demo_video_def)
  have inf: "next_chunks (get_media infinite_timestamp_world (item_id demo_video)) [] = Inr ''abcd'' \<and>
         fs_open_wb infinite_timestamp_world (temp_path (item_name demo_video)) = None \<and>
         fs_write infinite_timestamp_world (temp_path (item_name demo_video)) = None \<and>
         cap_fps infinite_timestamp_world ''abcd'' \<noteq> Finite 0 \<and>
         py_int (float_mul infinite_timestamp_world (cap_fps infinite_timestamp_world ''abcd'')
                   (CAPTURE_TIMESTAMP_SECONDS infinite_timestamp_world)) = Inl OverflowError"
    by (simp add: infinite_timestamp_world_def demo_world_def example_mul_def)
  note c = http_errors_are_isolated
  note c1 = c [where w = http_errors_world and folder_id = "''bad''" and n = 0
      and current_path = "''<root>/bad''" and s = demo_state, THEN conjunct1, THEN mp, OF l]
  note c4 = c [where w = http_errors_world and video_file = "http_errors_items ! 1"
      and current_path = "''<root>''" and s = demo_state,
      THEN conjunct2, THEN conjunct2, THEN conjunct2, THEN conjunct1, THEN mp, OF a]
  note c7u = c [where w = http_errors_world and video_file = "http_errors_items ! 2"
      and current_path = "''<root>''" and s = demo_state,
      THEN conjunct2, THEN conjunct2, THEN conjunct2, THEN conjunct2, THEN conjunct2,
      THEN conjunct2, THEN conjunct1, THEN mp, OF w, THEN conjunct2, THEN conjunct1,
      THEN mp, OF u]
  note c7d = c [where w = http_errors_world and current_path = "''<root>''" and s = demo_state,
      THEN conjunct2, THEN conjunct2, THEN conjunct2, THEN conjunct2, THEN conjunct2,
      THEN conjunct2, THEN conjunct1, THEN mp, OF w, THEN conjunct2, THEN conjunct2,
      THEN conjunct1, THEN mp, OF d]
  note c7r = c [THEN conjunct2, THEN conjunct2, THEN conjunct2, THEN conjunct2, THEN conjunct2,
      THEN conjunct2, THEN conjunct1, THEN mp, OF w, THEN conjunct2, THEN conjunct2,
      THEN conjunct2, THEN mp, OF run]
  note c6 = c [THEN conjunct2, THEN conjunct2, THEN conjunct2, THEN conjunct2, THEN conjunct2,
      THEN conjunct1, THEN mp, OF run [unfolded c7r], THEN bspec, OF b(1), THEN conjunct1,
      THEN mp, OF b(2)]
  note c8c = c [where e = TimeoutError and w = timeout_world and video_file = demo_video,
      THEN conjunct2, THEN conjunct2, THEN conjunct2, THEN conjunct2, THEN conjunct2,
      THEN conjunct2, THEN conjunct2, THEN conjunct1,
      THEN mp, OF ne(1), THEN conjunct2, THEN conjunct2, THEN conjunct1, THEN mp, OF dt]
  note c9 = c [where w = timeout_world and item = demo_video and current_path = "''<root>''"
      and s = "log (ListCall ''root'' None) demo_state" and e = TimeoutError and n = 0
      and items = "[\<lparr>item_id = ''b'', item_name = ''b.mp4'', mimeType = Some ''video/mp4''\<rparr>]",
      THEN conjunct2, THEN conjunct2, THEN conjunct2, THEN conjunct2, THEN conjunct2,
      THEN conjunct2, THEN conjunct2, THEN conjunct2, THEN conjunct1, THEN mp,
      OF conjI [OF vd c8c]]
  have items: "traverse_items 0 timeout_world
      (case files \<lparr>files = Some [demo_video,
              \<lparr>item_id = ''b'', item_name = ''b.mp4'', mimeType = Some ''video/mp4''\<rparr>],
           nextPageToken = None\<rparr> of None \<Rightarrow> [] | Some xs \<Rightarrow> xs) ''<root>''
      (log (ListCall ''root'' None) demo_state) =
      Some (Inl TimeoutError, snd (process_video timeout_world demo_video ''<root>''
                  (log (ListCall ''root'' None) demo_state)))"
    using c9 by simp
  note c8h = c [where e = TimeoutError and w = timeout_world and n = 0
      and folder_id = "''root''" and current_path = "''<root>''" and s = demo_state,
      THEN conjunct2, THEN conjunct2, THEN conjunct2, THEN conjunct2, THEN conjunct2,
      THEN conjunct2, THEN conjunct2, THEN conjunct1, THEN mp, OF ne(1), THEN conjunct2, THEN conjunct2, THEN conjunct2, THEN conjunct2,
      THEN conjunct2, THEN conjunct2, THEN spec, THEN mp, OF conjI [OF lt items]]
  note c8f = c [where e = OverflowError and w = infinite_timestamp_world
      and video_file = demo_video and current_path = "''<root>''" and s = demo_state,
      THEN conjunct2, THEN conjunct2, THEN conjunct2, THEN conjunct2, THEN conjunct2,
      THEN conjunct2, THEN conjunct2, THEN conjunct1, THEN mp, OF ne(2), THEN conjunct2, THEN conjunct2, THEN conjunct2, THEN conjunct2,
      THEN conjunct1, THEN spec, THEN mp, OF inf]
  have up: "next_chunks (get_media http_errors_world (item_id (http_errors_items ! 2))) [] =
           Inr ''abcd'' \<and>
      fs_open_wb http_errors_world (temp_path (item_name (http_errors_items ! 2))) = None \<and>
      fs_write http_errors_world (temp_path (item_name (http_errors_items ! 2))) = None \<and>
      cap_fps http_errors_world ''abcd'' \<noteq> Finite 0 \<and>
      py_int (float_mul http_errors_world (cap_fps http_errors_world ''abcd'')
                (CAPTURE_TIMESTAMP_SECONDS http_errors_world)) = Inr 60 \<and>
      cap_read http_errors_world ''abcd'' 60 = (True, Some ''jpeg'') \<and>
      cv_imwrite http_errors_world
        (temp_path (thumbnail_name_of (item_name (http_errors_items ! 2)))) \<and>
      files_create http_errors_world
        \<lparr>md_name = thumbnail_name_of (item_name (http_errors_items ! 2)),
         md_parents = [THUMBNAIL_FOLDER_ID http_errors_world]\<rparr> ''jpeg'' = Inl HttpError"
  proof -
    have "thumbnail_name_of (item_name (http_errors_items ! 2)) = ''u_Thumbnail.jpg''"
      by code_simp
    then show ?thesis
      by (simp add: http_errors_world_def http_errors_items_def demo_world_def example_mul_def
          py_int_Finite)
  qed
  note c13 = c [where w = http_errors_world and video_file = "http_errors_items ! 2"
      and current_path = "''<root>''" and s = demo_state,
      THEN conjunct2, THEN conjunct2, THEN conjunct2, THEN conjunct2, THEN conjunct2,
      THEN conjunct2, THEN conjunct2, THEN conjunct2, THEN conjunct2, THEN conjunct2,
      THEN conjunct2, THEN conjunct2, THEN spec, THEN spec, THEN spec, THEN mp, OF up]
  from w d c1 c4 c7u c13 c7d c7r c6 t c8c c8h c8f show ?thesis by (simp add: b(3))
qed

section \<open>Running twice\<close>

lemma same_increment_refl: "same_increment s s t t"
  by (simp add: same_increment_def)

lemma same_increment_trans:
  "same_increment s s1 t t1 \<Longrightarrow> same_increment s1 s2 t1 t2 \<Longrightarrow> same_increment s s2 t t2"
  by (auto simp: same_increment_def)

lemma same_increment_log: "same_increment s (log e s) t (log e t)"
  by (simp add: same_increment_def log_def)

lemma same_increment_local:
  "drive_uploaded s' = drive_uploaded s \<Longrightarrow> sheet s' = sheet s \<Longrightarrow>
   drive_uploaded t' = drive_uploaded t \<Longrightarrow> sheet t' = sheet t \<Longrightarrow> same_increment s s' t t'"
  by (simp add: same_increment_def)

lemma upload_thumbnail_frame:
  assumes "\<forall>path. cv_imwrite w path"
    and "upload_thumbnail w file_name folder_path img s = (r, tp, s1)"
  shows "\<exists>t1. upload_thumbnail w file_name folder_path img t = (r, tp, t1) \<and>
              same_increment s s1 t t1"
  using assms
  by (auto simp: upload_thumbnail_def log_def Let_def same_increment_def split: sum.splits)

lemma process_video_try_frame:
  assumes w: "\<forall>path. cv_imwrite w path"
    and run: "process_video_try w file_id file_name folder_path s = (r, tv, tp, s1)"
  shows "\<exists>t1. process_video_try w file_id file_name folder_path t = (r, tv, tp, t1) \<and>
              same_increment s s1 t t1"
proof (cases "next_chunks (get_media w file_id) []")
  case (Inl e)
  with run show ?thesis
    by (auto simp: process_video_try_def download_def log_def same_increment_def)
next
  case (Inr content)
  note dl = this
  show ?thesis
  proof (cases "fs_open_wb w (temp_path file_name) = None \<and> fs_write w (temp_path file_name) = None")
    case False
    with run dl show ?thesis
      by (auto simp: process_video_try_def download_def write_video_def log_def Let_def
            same_increment_def split: option.splits)
  next
    case True
    then have ok: "fs_open_wb w (temp_path file_name) = None" "fs_write w (temp_path file_name) = None"
      by simp_all
    show ?thesis
    proof (cases "cap_fps w content = Finite 0 \<or>
        (\<exists>e. py_int (float_mul w (cap_fps w content) (CAPTURE_TIMESTAMP_SECONDS w)) = Inl e)")
      case True
      with run dl show ?thesis
        by (auto simp: process_video_try_def download_def write_video_ok [OF ok] video_fps_def
              log_def Let_def same_increment_def)
    next
      case False
      then obtain frame_id where fps: "cap_fps w content \<noteq> Finite 0"
        and frame_id: "py_int (float_mul w (cap_fps w content) (CAPTURE_TIMESTAMP_SECONDS w)) =
                         Inr frame_id"
        by (cases "py_int (float_mul w (cap_fps w content) (CAPTURE_TIMESTAMP_SECONDS w))") auto
      obtain success frame where rd: "cap_read w content frame_id = (success, frame)"
        by fastforce
      show ?thesis
      proof (cases "frame = None \<or> \<not> success")
        case True
        with run dl fps frame_id rd show ?thesis
          by (auto simp: process_video_try_def download_def write_video_ok [OF ok] video_fps_def
                seek_and_read_def log_def Let_def same_increment_def split: option.splits)
      next
        case False
        then obtain img where img: "frame = Some img" "success" by auto
        let ?after = "\<lambda>s. s\<lparr>fs := (fs s)(temp_path file_name \<mapsto> content),
                     events := events s @ [DownloadCall file_id, FileCreated (temp_path file_name),
                        SeekFrame frame_id, ReadFrame]\<rparr>"
        have body: "process_video_try w file_id file_name folder_path u =
             (case upload_thumbnail w file_name folder_path img (?after u) of
                (r, thumbnail_path, s4) \<Rightarrow> (r, Some (temp_path file_name), thumbnail_path, s4))"
          for u
          using dl fps frame_id rd img
          by (simp add: process_video_try_def download_def write_video_ok [OF ok] video_fps_def
                seek_and_read_def log_def Let_def split: prod.splits)
        from run obtain s4 where
          up: "upload_thumbnail w file_name folder_path img (?after s) = (r, tp, s4)"
          and tv: "tv = Some (temp_path file_name)" and s1: "s1 = s4"
          by (auto simp: body split: prod.splits)
        from upload_thumbnail_frame [OF w up, of "?after t"] obtain t1 where
          t1: "upload_thumbnail w file_name folder_path img (?after t) = (r, tp, t1)"
          "same_increment (?after s) s4 (?after t) t1"
          by blast
        from t1(2) have "same_increment s s1 t t1"
          by (simp add: same_increment_def s1)
        with t1(1) tv show ?thesis by (auto simp: body)
      qed
    qed
  qed
qed

lemma process_video_frame:
  assumes w: "stable_services w"
    and run: "process_video w video_file folder_path s = (r, s')"
  shows "\<exists>t'. process_video w video_file folder_path t = (r, t') \<and> same_increment s s' t t'"
proof -
  from w have im: "\<forall>path. cv_imwrite w path" by (simp add: stable_services_def)
  obtain r1 tv tp s1 where tr:
    "process_video_try w (item_id video_file) (item_name video_file) folder_path s = (r1, tv, tp, s1)"
    by (metis prod_cases4)
  from process_video_try_frame [OF im tr, of t] obtain t1 where
    t1: "process_video_try w (item_id video_file) (item_name video_file) folder_path t =
           (r1, tv, tp, t1)" "same_increment s s1 t t1"
    by blast
  from run tr have r: "r = except_HttpError None r1" and s': "s' = cleanup w tv tp s1"
    by (simp_all add: process_video_def)
  from t1(2) have "same_increment s s' t (cleanup w tv tp t1)"
    by (simp add: same_increment_def s')
  with t1(1) r show ?thesis by (simp add: process_video_def)
qed

lemma append_attempts_frame:
  assumes st: "\<forall>k k' data_row. values_append w k data_row = values_append w k' data_row"
  shows "append_attempts w data_row attempt backoff s = (r, s') \<Longrightarrow>
         \<exists>t'. append_attempts w data_row attempt backoff t = (r, t') \<and> same_increment s s' t t'"
proof (induction "max_retries - attempt" arbitrary: attempt backoff s t)
  case 0
  then have "\<not> attempt < max_retries" by simp
  with 0 show ?case
    by (subst append_attempts.simps, subst (asm) append_attempts.simps)
       (simp add: same_increment_refl)
next
  case (Suc d)
  then have lt: "attempt < max_retries" by simp
  from st have same: "values_append w (append_requests t) data_row =
                      values_append w (append_requests s) data_row" by blast
  show ?case
  proof (cases "values_append w (append_requests s) data_row")
    case None
    with lt Suc.prems same show ?thesis
      by (auto simp: append_attempts_success same_increment_def)
  next
    case (Some e)
    show ?thesis
    proof (cases "transient e")
      case False
      with lt Some Suc.prems same show ?thesis
        by (auto simp: append_attempts_raise same_increment_def)
    next
      case True
      show ?thesis
      proof (cases "attempt + 1 = max_retries")
        case True
        with Some \<open>transient e\<close> Suc.prems same show ?thesis
          by (auto simp: append_attempts_give_up same_increment_def)
      next
        case False
        with lt have lt': "attempt + 1 < max_retries" by simp
        let ?next = "\<lambda>s. s\<lparr>append_requests := append_requests s + 1,
                       events := events s @ [AppendCall data_row, Sleep backoff]\<rparr>"
        from Suc.prems have run: "append_attempts w data_row (attempt + 1) (backoff * 2) (?next s) = (r, s')"
          by (simp add: append_attempts_retry [OF lt' Some True])
        from Suc.hyps(2) have d: "d = max_retries - (attempt + 1)" by simp
        from Suc.hyps(1) [OF d run, of "?next t"] obtain t' where
          t': "append_attempts w data_row (attempt + 1) (backoff * 2) (?next t) = (r, t')"
          "same_increment (?next s) s' (?next t) t'"
          by blast
        from same Some have some_t: "values_append w (append_requests t) data_row = Some e"
          by simp
        from t'(1) have "append_attempts w data_row attempt backoff t = (r, t')"
          by (simp add: append_attempts_retry [OF lt' some_t True])
        moreover from t'(2) have "same_increment s s' t t'" by (simp add: same_increment_def)
        ultimately show ?thesis by blast
      qed
    qed
  qed
qed

lemma append_to_sheet_frame:
  assumes "stable_services w" and "append_to_sheet w data_row s = (r, s')"
  shows "\<exists>t'. append_to_sheet w data_row t = (r, t') \<and> same_increment s s' t t'"
proof (cases "data_row = None \<or> data_row = Some []")
  case True
  with assms(2) show ?thesis by (auto simp: append_to_sheet_def same_increment_refl)
next
  case False
  then obtain row where row: "data_row = Some row" "row \<noteq> []" by auto
  from assms(1) have st: "\<forall>k k' data_row. values_append w k data_row = values_append w k' data_row"
    by (simp add: stable_services_def)
  from assms(2) row have "append_attempts w row 0 2 s = (r, s')" by (simp add: append_to_sheet_def)
  from append_attempts_frame [OF st this, of t] row show ?thesis
    by (simp add: append_to_sheet_def)
qed

lemma traverse_items_frame:
  assumes w: "stable_services w"
    and folder: "\<And>f p s r s1 t. traverse_folder n w f p s = Some (r, s1) \<Longrightarrow>
        \<exists>t1. traverse_folder n w f p t = Some (r, t1) \<and> same_increment s s1 t t1"
  shows "traverse_items n w items current_path s = Some (r, s') \<Longrightarrow>
         \<exists>t'. traverse_items n w items current_path t = Some (r, t') \<and> same_increment s s' t t'"
proof (induction items arbitrary: s t)
  case Nil
  then show ?case by (simp add: same_increment_refl)
next
  case (Cons item items)
  let ?mime = "case mimeType item of None \<Rightarrow> [] | Some m \<Rightarrow> m"
  show ?case
  proof (cases "?mime = ''application/vnd.google-apps.folder''")
    case True
    with Cons.prems obtain rf s1 where
      f: "traverse_folder n w (item_id item) (current_path @ ''/'' @ item_name item) s = Some (rf, s1)"
      by (auto split: option.splits)
    from folder [OF f, of t] obtain t1 where
      t1: "traverse_folder n w (item_id item) (current_path @ ''/'' @ item_name item) t = Some (rf, t1)"
      "same_increment s s1 t t1" by blast
    show ?thesis
    proof (cases rf)
      case (Inl e)
      with Cons.prems True f have "r = Inl e" "s' = s1" by simp_all
      with True t1 Inl show ?thesis by simp
    next
      case (Inr u)
      with Cons.prems True f have "traverse_items n w items current_path s1 = Some (r, s')"
        by simp
      from Cons.IH [OF this, of t1] obtain t' where
        "traverse_items n w items current_path t1 = Some (r, t')" "same_increment s1 s' t1 t'"
        by blast
      with True t1 Inr show ?thesis by (auto intro: same_increment_trans)
    qed
  next
    case False
    note not_folder = this
    show ?thesis
    proof (cases "prefix ''video/'' ?mime")
      case True
      obtain rv s1 where v: "process_video w item current_path s = (rv, s1)" by fastforce
      from process_video_frame [OF w v, of t] obtain t1 where
        t1: "process_video w item current_path t = (rv, t1)" "same_increment s s1 t t1" by blast
      show ?thesis
      proof (cases rv)
        case (Inl e)
        with Cons.prems not_folder True v have "r = Inl e" "s' = s1" by simp_all
        with not_folder True t1 Inl show ?thesis by simp
      next
        case (Inr log_data)
        obtain ra s2 where a: "append_to_sheet w (map_option cells log_data) s1 = (ra, s2)"
          by fastforce
        from append_to_sheet_frame [OF w a, of t1] obtain t2 where
          t2: "append_to_sheet w (map_option cells log_data) t1 = (ra, t2)"
          "same_increment s1 s2 t1 t2" by blast
        note inc2 = same_increment_trans [OF t1(2) t2(2)]
        show ?thesis
        proof (cases ra)
          case (Inl e)
          with Cons.prems not_folder True v Inr a have "r = Inl e" "s' = s2" by simp_all
          with not_folder True t1 t2 Inr Inl inc2 show ?thesis by simp
        next
          case (Inr u)
          with Cons.prems not_folder True v \<open>rv = Inr log_data\<close> a
          have "traverse_items n w items current_path s2 = Some (r, s')" by simp
          from Cons.IH [OF this, of t2] obtain t' where
            "traverse_items n w items current_path t2 = Some (r, t')" "same_increment s2 s' t2 t'"
            by blast
          with not_folder True t1 t2 \<open>rv = Inr log_data\<close> Inr inc2 show ?thesis
            by (auto intro: same_increment_trans)
        qed
      qed
    next
      case False
      with Cons.prems not_folder have "traverse_items n w items current_path s = Some (r, s')"
        by simp
      from Cons.IH [OF this, of t] not_folder False show ?thesis by simp
    qed
  qed
qed

lemma traverse_folder_frame:
  assumes w: "stable_services w"
  shows "traverse_folder n w folder_id current_path s = Some (r, s') \<Longrightarrow>
         \<exists>t'. traverse_folder n w folder_id current_path t = Some (r, t') \<and>
              same_increment s s' t t'"
proof (induction n arbitrary: folder_id current_path s r s' t)
  case 0
  then show ?case by simp
next
  case (Suc n)
  show ?case
  proof (cases "files_list w folder_id None")
    case (Inl e)
    with Suc.prems show ?thesis by (auto simp: Let_def same_increment_log)
  next
    case (Inr results)
    with Suc.prems obtain r2 where
      run: "traverse_items n w (case files results of None \<Rightarrow> [] | Some xs \<Rightarrow> xs) current_path
         (log (ListCall folder_id None) s) = Some (r2, s')" and r: "r = except_HttpError () r2"
      by (auto simp: Let_def split: option.splits)
    from traverse_items_frame [OF w Suc.IH run, of "log (ListCall folder_id None) t"]
    obtain t' where
      t': "traverse_items n w (case files results of None \<Rightarrow> [] | Some xs \<Rightarrow> xs) current_path
         (log (ListCall folder_id None) t) = Some (r2, t')"
      "same_increment (log (ListCall folder_id None) s) s' (log (ListCall folder_id None) t) t'"
      by blast
    from t'(2) have "same_increment s s' t t'" by (simp add: same_increment_def log_def)
    with t'(1) Inr r show ?thesis by (simp add: Let_def)
  qed
qed

text \<open>
  Claim C8. With services that answer a second run as they answered the first, a second
  walk from the state the first one left ends the same way, uploads again every thumbnail
  the first walk uploaded and writes again every row the first walk wrote: nothing is
  looked up before uploading or appending. So the sheet and the thumbnail folder hold each
  of them twice.
\<close>

theorem second_run_duplicates:
  assumes "stable_services w"
    and "traverse_folder n w folder_id current_path s = Some (r, s1)"
  shows "\<exists>s2 uploads rows.
           traverse_folder n w folder_id current_path s1 = Some (r, s2) \<and>
           drive_uploaded s1 = drive_uploaded s @ uploads \<and>
           drive_uploaded s2 = drive_uploaded s @ uploads @ uploads \<and>
           sheet s1 = sheet s @ rows \<and>
           sheet s2 = sheet s @ rows @ rows"
proof -
  from traverse_folder_frame [OF assms, of s1] obtain s2 where
    "traverse_folder n w folder_id current_path s1 = Some (r, s2)" "same_increment s s1 s1 s2"
    by blast
  then show ?thesis unfolding same_increment_def by auto
qed

text \<open>The scenario run twice: the thumbnail is uploaded twice and its row is written twice.\<close>

theorem second_run_duplicates_witness:
  "stable_services demo_world \<and>
   traverse_folder 2 demo_world ''root'' ''<root>'' demo_state \<noteq> None \<and>
   sheet (snd (the (traverse_folder 2 demo_world ''root'' ''<root>'' demo_state))) = [demo_row] \<and>
   (\<exists>s2. traverse_folder 2 demo_world ''root'' ''<root>''
            (snd (the (traverse_folder 2 demo_world ''root'' ''<root>'' demo_state))) =
            Some (Inr (), s2) \<and>
         sheet s2 = [demo_row, demo_row] \<and>
         map fst (drive_uploaded s2) =
           [\<lparr>md_name = ''a_Thumbnail.jpg'', md_parents = [''thumbs'']\<rparr>,
            \<lparr>md_name = ''a_Thumbnail.jpg'', md_parents = [''thumbs'']\<rparr>])"
proof -
  let ?s1 = "snd (the (traverse_folder 2 demo_world ''root'' ''<root>'' demo_state))"
  have w: "stable_services demo_world" by (simp add: stable_services_def demo_world_def)
  have t: "traverse_folder 2 demo_world ''root'' ''<root>'' demo_state \<noteq> None" by code_simp
  have r: "fst (the (traverse_folder 2 demo_world ''root'' ''<root>'' demo_state)) = Inr ()"
    by code_simp
  have sh: "sheet ?s1 = [demo_row]" by code_simp
  have up: "map fst (drive_uploaded ?s1) =
      [\<lparr>md_name = ''a_Thumbnail.jpg'', md_parents = [''thumbs'']\<rparr>]" by code_simp
  from t r have run: "traverse_folder 2 demo_world ''root'' ''<root>'' demo_state = Some (Inr (), ?s1)"
    by (auto simp: prod_eq_iff)
  from second_run_duplicates [OF w run] obtain s2 uploads rows where
    s2: "traverse_folder 2 demo_world ''root'' ''<root>'' ?s1 = Some (Inr (), s2)"
    "drive_uploaded ?s1 = drive_uploaded demo_state @ uploads"
    "drive_uploaded s2 = drive_uploaded demo_state @ uploads @ uploads"
    "sheet ?s1 = sheet demo_state @ rows"
    "sheet s2 = sheet demo_state @ rows @ rows"
    by blast
  from s2(4) sh have rows: "rows = [demo_row]" by (simp add: demo_state_def)
  from s2(2) have "uploads = drive_uploaded ?s1" by (simp add: demo_state_def)
  with s2(3) up have "map fst (drive_uploaded s2) =
           [\<lparr>md_name = ''a_Thumbnail.jpg'', md_parents = [''thumbs'']\<rparr>,
            \<lparr>md_name = ''a_Thumbnail.jpg'', md_parents = [''thumbs'']\<rparr>]"
    by (simp add: demo_state_def)
  with s2(1) s2(5) rows w t sh show ?thesis by (simp add: demo_state_def)
qed

section \<open>The name of the thumbnail\<close>

lemma rfind_none:
  assumes "c \<notin> set p"
  shows "rfind p c = - 1"
proof -
  from assms have "filter (\<lambda>i. p ! i = c) (rev [0..<length p]) = []"
    by (auto simp: filter_empty_conv)
  then show ?thesis by (simp add: rfind_def)
qed

lemma rfind_ge: "- 1 \<le> rfind p c"
  by (simp add: rfind_def split: list.splits)

lemma rfind_last:
  assumes "c \<notin> set ys"
  shows "rfind (xs @ c # ys) c = int (length xs)"
proof -
  let ?n = "length xs" and ?p = "xs @ c # ys"
  define k where "k = Suc (?n + length ys)"
  have len: "length ?p = k" by (simp add: k_def)
  have "[0..<?n + (k - ?n)] = [0..<?n] @ [?n..<?n + (k - ?n)]"
    by (rule upt_add_eq_append) simp
  moreover have "[?n..<k] = ?n # [Suc ?n..<k]"
    by (rule upt_conv_Cons) (simp add: k_def)
  moreover have "?n + (k - ?n) = k" by (simp add: k_def)
  ultimately have a: "[0..<k] = [0..<?n] @ ?n # [Suc ?n..<k]" by simp
  have b: "filter (\<lambda>i. ?p ! i = c) [Suc ?n..<k] = []"
  proof -
    have "?p ! i \<noteq> c" if "Suc ?n \<le> i" "i < k" for i
    proof -
      from that have "?p ! i = ys ! (i - Suc ?n)" by (simp add: nth_append nth_Cons')
      moreover from that have "ys ! (i - Suc ?n) \<in> set ys"
        by (intro nth_mem) (simp add: k_def)
      ultimately show ?thesis using assms by metis
    qed
    then show ?thesis unfolding filter_empty_conv set_upt by auto
  qed
  have "filter (\<lambda>i. ?p ! i = c) (rev [0..<length ?p]) =
          ?n # rev (filter (\<lambda>i. ?p ! i = c) [0..<?n])"
    unfolding len a by (simp add: b rev_filter [symmetric])
  then show ?thesis by (simp add: rfind_def)
qed

lemma splitext_extension:
  assumes "CHR ''/'' \<notin> set stem" "CHR ''/'' \<notin> set ext" "CHR ''.'' \<notin> set ext"
    and "\<exists>c \<in> set stem. c \<noteq> CHR ''.''"
  shows "splitext (stem @ CHR ''.'' # ext) = (stem, CHR ''.'' # ext)"
proof -
  let ?p = "stem @ CHR ''.'' # ext"
  from assms(1,2) have sep: "rfind ?p (CHR ''/'') = - 1" by (intro rfind_none) simp
  from assms(3) have dot: "rfind ?p (CHR ''.'') = int (length stem)" by (rule rfind_last)
  from assms(4) obtain j where j: "j < length stem" "stem ! j \<noteq> CHR ''.''"
    by (auto simp: in_set_conv_nth)
  then have "?p ! j \<noteq> CHR ''.''" by (simp add: nth_append)
  with j(1) have "list_ex (\<lambda>i. ?p ! i \<noteq> CHR ''.'') [0..<length stem]"
    by (auto simp: list_ex_iff)
  then show ?thesis by (simp add: splitext_def sep dot Let_def)
qed

lemma splitext_no_dot: "CHR ''.'' \<notin> set name \<Longrightarrow> splitext name = (name, [])"
  using rfind_ge [of name "CHR ''/''"] by (simp add: splitext_def rfind_none Let_def)

lemma splitext_leading_dots:
  assumes "CHR ''/'' \<notin> set ext" "CHR ''.'' \<notin> set ext" "\<forall>c \<in> set dots. c = CHR ''.''"
  shows "splitext (dots @ CHR ''.'' # ext) = (dots @ CHR ''.'' # ext, [])"
proof -
  let ?p = "dots @ CHR ''.'' # ext"
  from assms(1,3) have sep: "rfind ?p (CHR ''/'') = - 1" by (intro rfind_none) auto
  from assms(2) have dot: "rfind ?p (CHR ''.'') = int (length dots)" by (rule rfind_last)
  have "\<not> list_ex (\<lambda>i. ?p ! i \<noteq> CHR ''.'') [0..<length dots]"
    using assms(3) by (auto simp: list_ex_iff nth_append)
  then show ?thesis by (simp add: splitext_def sep dot Let_def)
qed

section \<open>The rows of a walk\<close>

lemma upload_thumbnail_sheet:
  "upload_thumbnail w file_name folder_path img s = (r, tp, s') \<Longrightarrow> sheet s' = sheet s"
  by (auto simp: upload_thumbnail_def log_def Let_def split: option.splits sum.splits if_splits)

lemma process_video_try_sheet:
  "process_video_try w file_id file_name folder_path s = (r, tv, tp, s1) \<Longrightarrow> sheet s1 = sheet s"
  by (auto simp: process_video_try_def download_def write_video_def seek_and_read_def log_def
        Let_def
      dest!: upload_thumbnail_sheet
      split: option.splits sum.splits if_splits prod.splits)

lemma process_video_sheet:
  assumes "process_video w video_file folder_path s = (r, s')"
  shows "sheet s' = sheet s"
proof -
  obtain r1 tv tp s1 where tr:
    "process_video_try w (item_id video_file) (item_name video_file) folder_path s = (r1, tv, tp, s1)"
    by (metis prod_cases4)
  from assms tr have "s' = cleanup w tv tp s1" by (simp add: process_video_def)
  with process_video_try_sheet [OF tr] show ?thesis by simp
qed

lemma traverse_folder_sheet:
  assumes "traverse_folder n w folder_id current_path s = Some (r, s')"
  shows "\<exists>rows. sheet s' = sheet s @ rows"
proof (rule traverse_folder_preserves [where P = "\<lambda>s s'. \<exists>rows. sheet s' = sheet s @ rows",
      OF _ _ _ _ _ assms])
  show "\<exists>rows. sheet s = sheet s @ rows" for s :: state by simp
  show "\<exists>rows. sheet s2 = sheet s @ rows"
    if "\<exists>rows. sheet s1 = sheet s @ rows" "\<exists>rows. sheet s2 = sheet s1 @ rows"
    for s s1 s2 :: state using that by auto
  show "\<exists>rows. sheet (log (ListCall f None) s) = sheet s @ rows" for f s
    by (simp add: log_def)
  show "\<exists>rows. sheet s1 = sheet s @ rows" if "process_video w item p s = (r, s1)"
    for item p s r s1 using process_video_sheet [OF that] by simp
  show "\<exists>rows. sheet s1 = sheet s @ rows" if "append_to_sheet w data_row s = (r, s1)"
    for data_row s r s1 using append_to_sheet_at_most_one_row [OF that] by auto
qed

lemma traverse_items_sheet:
  assumes "traverse_items n w items current_path s = Some (r, s')"
  shows "\<exists>rows. sheet s' = sheet s @ rows"
proof (rule traverse_items_preserves [where P = "\<lambda>s s'. \<exists>rows. sheet s' = sheet s @ rows",
      OF _ _ _ _ _ assms])
  show "\<exists>rows. sheet s = sheet s @ rows" for s :: state by simp
  show "\<exists>rows. sheet s2 = sheet s @ rows"
    if "\<exists>rows. sheet s1 = sheet s @ rows" "\<exists>rows. sheet s2 = sheet s1 @ rows"
    for s s1 s2 :: state using that by auto
  show "\<exists>rows. sheet s1 = sheet s @ rows" if "process_video w item p s = (r, s1)"
    for item p s r s1 using process_video_sheet [OF that] by simp
  show "\<exists>rows. sheet s1 = sheet s @ rows" if "append_to_sheet w data_row s = (r, s1)"
    for data_row s r s1 using append_to_sheet_at_most_one_row [OF that] by auto
  show "\<exists>rows. sheet s1 = sheet s @ rows" if "traverse_folder n w f p s = Some (r, s1)"
    for f p s r s1 using that by (rule traverse_folder_sheet)
qed

lemma append_attempts_raises:
  "append_attempts w data_row attempt backoff s = (Inl e, s') \<Longrightarrow> \<not> transient e"
proof (induction "max_retries - attempt" arbitrary: attempt backoff s)
  case 0
  from 0(1) 0(2) show ?case by (subst (asm) append_attempts.simps) simp
next
  case (Suc d)
  then have lt: "attempt < max_retries" by simp
  show ?case
  proof (cases "values_append w (append_requests s) data_row")
    case None
    with lt Suc.prems show ?thesis by (simp add: append_attempts_success)
  next
    case (Some e0)
    show ?thesis
    proof (cases "transient e0")
      case False
      with lt Some Suc.prems show ?thesis by (simp add: append_attempts_raise)
    next
      case True
      show ?thesis
      proof (cases "attempt + 1 = max_retries")
        case True
        with Some \<open>transient e0\<close> Suc.prems show ?thesis by (simp add: append_attempts_give_up)
      next
        case False
        with lt have lt': "attempt + 1 < max_retries" by simp
        from Suc.hyps(2) have d: "d = max_retries - (attempt + 1)" by simp
        from Suc.prems have "append_attempts w data_row (attempt + 1) (backoff * 2)
            (s\<lparr>append_requests := append_requests s + 1,
               events := events s @ [AppendCall data_row, Sleep backoff]\<rparr>) = (Inl e, s')"
          by (simp add: append_attempts_retry [OF lt' Some True])
        from Suc.hyps(1) [OF d this] show ?thesis .
      qed
    qed
  qed
qed

lemma append_to_sheet_raises:
  "append_to_sheet w data_row s = (Inl e, s') \<Longrightarrow> e \<noteq> HttpError"
  by (auto simp: append_to_sheet_def transient_def dest!: append_attempts_raises
      split: option.splits if_splits)

lemma traverse_items_not_HttpError:
  "traverse_items n w items current_path s \<noteq> Some (Inl HttpError, s')"
proof (induction items arbitrary: s)
  case Nil
  then show ?case by auto
next
  case (Cons item items)
  have v: "process_video w item current_path s \<noteq> (Inl HttpError, s1)" for s1
    using process_video_not_HttpError [of w item current_path s] by auto
  have f: "traverse_folder n w f p t \<noteq> Some (Inl HttpError, t1)" for f p t t1
    using traverse_folder_not_HttpError [of n w f p t "Inl HttpError" t1] by auto
  have a: "append_to_sheet w data_row t \<noteq> (Inl HttpError, t1)" for data_row t t1
    using append_to_sheet_raises [of w data_row t HttpError t1] by auto
  show ?case
    by (auto simp: Let_def Cons.IH v f a
        split: if_splits option.splits sum.splits prod.splits)
qed

lemma append_attempts_succeeds:
  "j + attempt < max_retries \<Longrightarrow>
   \<forall>k<j. \<exists>e. values_append w (append_requests s + k) data_row = Some e \<and> transient e \<Longrightarrow>
   values_append w (append_requests s + j) data_row = None \<Longrightarrow>
   fst (append_attempts w data_row attempt backoff s) = Inr () \<and>
   sheet (snd (append_attempts w data_row attempt backoff s)) = sheet s @ [data_row]"
proof (induction j arbitrary: attempt backoff s)
  case 0
  then show ?case by (simp add: append_attempts_success)
next
  case (Suc j)
  from Suc.prems(2) obtain e where e: "values_append w (append_requests s) data_row = Some e"
    "transient e" by fastforce
  from Suc.prems(1) have lt: "attempt + 1 < max_retries" by simp
  let ?s1 = "s\<lparr>append_requests := append_requests s + 1,
               events := events s @ [AppendCall data_row, Sleep backoff]\<rparr>"
  have "fst (append_attempts w data_row (attempt + 1) (backoff * 2) ?s1) = Inr () \<and>
        sheet (snd (append_attempts w data_row (attempt + 1) (backoff * 2) ?s1)) =
          sheet ?s1 @ [data_row]"
  proof (rule Suc.IH)
    from Suc.prems(1) show "j + (attempt + 1) < max_retries" by simp
    show "\<forall>k<j. \<exists>e. values_append w (append_requests ?s1 + k) data_row = Some e \<and> transient e"
    proof (intro allI impI)
      fix k assume "k < j"
      then have "Suc k < Suc j" by simp
      with Suc.prems(2) have "\<exists>e. values_append w (append_requests s + Suc k) data_row = Some e \<and>
          transient e" by blast
      then show "\<exists>e. values_append w (append_requests ?s1 + k) data_row = Some e \<and> transient e"
        by simp
    qed
    from Suc.prems(3) show "values_append w (append_requests ?s1 + j) data_row = None" by simp
  qed
  then show ?case by (simp add: append_attempts_retry [OF lt e])
qed

lemma append_to_sheet_requests:
  assumes "data_row \<noteq> []" "append_to_sheet w (Some data_row) s = (r, s')"
  shows "AppendCall data_row \<in> set (new_events s s')"
proof -
  from assms have "append_attempts w data_row 0 (2 ^ (0 + 1)) s = (r, s')"
    by (simp add: append_to_sheet_def)
  from append_attempts_shape [OF _ this] obtain m where
    "events s' = events s @ retry_events data_row 0 m"
    by (auto simp: max_retries_def)
  then show ?thesis by (simp add: new_events_def retry_events_def)
qed

lemma processed_widen:
  assumes "extends s0 s" "processed w v path s s'" "extends s' s1"
    "\<exists>rows. sheet s1 = sheet s' @ rows"
  shows "processed w v path s0 s1"
proof -
  from assms(2) obtain t log_data t1 t2 rows where p:
    "extends s t" "process_video w v path t = (Inr log_data, t1)"
    "append_to_sheet w (map_option cells log_data) t1 = (Inr (), t2)"
    "extends t2 s'" "sheet s' = sheet t2 @ rows"
    unfolding processed_def by blast
  from assms(4) p(5) have "\<exists>rows. sheet s1 = sheet t2 @ rows" by auto
  with extends_trans [OF assms(1) p(1)] p(2,3) extends_trans [OF p(4) assms(3)]
  show ?thesis unfolding processed_def by blast
qed

lemma traverse_items_processes:
  "traverse_items n w items current_path s = Some (Inr (), s') \<Longrightarrow>
     (\<forall>v \<in> set items. is_video v \<longrightarrow> processed w v current_path s s') \<and>
     (\<forall>d \<in> set items. is_folder d \<longrightarrow>
        (\<exists>t t'. extends s t \<and>
           traverse_folder n w (item_id d) (current_path @ ''/'' @ item_name d) t =
             Some (Inr (), t') \<and>
           extends t' s' \<and> (\<exists>rows. sheet s' = sheet t' @ rows)))"
proof (induction items arbitrary: s)
  case Nil
  then show ?case by simp
next
  case (Cons item items)
  let ?mime = "case mimeType item of None \<Rightarrow> [] | Some m \<Rightarrow> m"
  have step: "\<exists>s1. extends s s1 \<and> traverse_items n w items current_path s1 = Some (Inr (), s') \<and>
     (is_video item \<longrightarrow>
        (\<exists>log_data t1. process_video w item current_path s = (Inr log_data, t1) \<and>
           append_to_sheet w (map_option cells log_data) t1 = (Inr (), s1))) \<and>
     (is_folder item \<longrightarrow>
        traverse_folder n w (item_id item) (current_path @ ''/'' @ item_name item) s =
          Some (Inr (), s1))"
  proof (cases "is_folder item")
    case True
    then have m: "?mime = ''application/vnd.google-apps.folder''" by (simp add: is_folder_mime)
    with Cons.prems obtain rf s1 where
      f: "traverse_folder n w (item_id item) (current_path @ ''/'' @ item_name item) s = Some (rf, s1)"
      by (auto split: option.splits)
    from Cons.prems m f have rf: "rf = Inr ()" by (cases rf) auto
    with Cons.prems m f have rest: "traverse_items n w items current_path s1 = Some (Inr (), s')"
      by simp
    from True have "\<not> is_video item" by (auto simp: is_folder_def is_video_def prefix_def)
    with traverse_folder_extends [OF f] rest f rf show ?thesis by blast
  next
    case False
    then have nf: "?mime \<noteq> ''application/vnd.google-apps.folder''" by (simp add: is_folder_mime)
    show ?thesis
    proof (cases "is_video item")
      case True
      obtain rv s1 where v: "process_video w item current_path s = (rv, s1)" by fastforce
      from Cons.prems is_video_mime [OF True] v obtain log_data where rv: "rv = Inr log_data"
        by (cases rv) auto
      obtain ra s2 where a: "append_to_sheet w (map_option cells log_data) s1 = (ra, s2)"
        by fastforce
      from Cons.prems is_video_mime [OF True] v rv a have ra: "ra = Inr ()"
        by (cases ra) auto
      from Cons.prems is_video_mime [OF True] v a rv ra
      have rest: "traverse_items n w items current_path s2 = Some (Inr (), s')" by simp
      note e1 = process_video_extends [OF v] and e2 = append_to_sheet_extends [OF a]
      from extends_trans [OF e1 e2] rest False v rv a ra show ?thesis by blast
    next
      case False
      then have "\<not> prefix ''video/'' ?mime" by (auto simp: is_video_def split: option.splits)
      with Cons.prems nf have "traverse_items n w items current_path s = Some (Inr (), s')" by simp
      with False \<open>\<not> is_folder item\<close> extends_refl [of s] show ?thesis by blast
    qed
  qed
  then obtain s1 where s1: "extends s s1"
    "traverse_items n w items current_path s1 = Some (Inr (), s')"
    "is_video item \<longrightarrow>
        (\<exists>log_data t1. process_video w item current_path s = (Inr log_data, t1) \<and>
           append_to_sheet w (map_option cells log_data) t1 = (Inr (), s1))"
    "is_folder item \<longrightarrow>
        traverse_folder n w (item_id item) (current_path @ ''/'' @ item_name item) s =
          Some (Inr (), s1)"
    by blast
  note e = traverse_items_extends [OF s1(2)] and g = traverse_items_sheet [OF s1(2)]
  note ih = Cons.IH [OF s1(2)]
  have videos: "processed w v current_path s s'" if "v \<in> set (item # items)" "is_video v" for v
  proof (cases "v = item")
    case True
    with that(2) s1(3) e g extends_refl [of s] show ?thesis unfolding processed_def by blast
  next
    case False
    with that have "processed w v current_path s1 s'" using ih by simp
    from processed_widen [OF s1(1) this extends_refl] show ?thesis by simp
  qed
  have folders: "\<exists>t t'. extends s t \<and>
           traverse_folder n w (item_id d) (current_path @ ''/'' @ item_name d) t =
             Some (Inr (), t') \<and>
           extends t' s' \<and> (\<exists>rows. sheet s' = sheet t' @ rows)"
    if "d \<in> set (item # items)" "is_folder d" for d
  proof (cases "d = item")
    case True
    with that(2) s1(4) e g extends_refl [of s] show ?thesis by blast
  next
    case False
    with that ih obtain t t' where
      "extends s1 t" "traverse_folder n w (item_id d) (current_path @ ''/'' @ item_name d) t =
             Some (Inr (), t')" "extends t' s'" "\<exists>rows. sheet s' = sheet t' @ rows"
      by auto
    with extends_trans [OF s1(1)] show ?thesis by blast
  qed
  from videos folders show ?case by blast
qed

lemma chain_end_Cons: "chain_end f (d # ds) = chain_end (item_id d) ds"
  by (simp add: chain_end_def)

lemma joined_path_Cons:
  "joined_path p (d # ds) = joined_path (p @ ''/'' @ item_name d) ds"
  by (simp add: joined_path_def)

lemma traverse_folder_processes:
  "traverse_folder n w folder_id current_path s = Some (Inr (), s') \<Longrightarrow>
   folder_chain w folder_id ds \<Longrightarrow> v \<in> set (listing w (chain_end folder_id ds)) \<Longrightarrow>
   is_video v \<Longrightarrow> processed w v (joined_path current_path ds) s s'"
proof (induction n arbitrary: folder_id current_path s s' ds)
  case 0
  then show ?case by simp
next
  case (Suc n)
  let ?s1 = "log (ListCall folder_id None) s"
  show ?case
  proof (cases "files_list w folder_id None")
    case (Inl e)
    then have "listing w folder_id = []" by (simp add: listing_def)
    with Suc.prems(2,3) show ?thesis by (cases ds) (simp_all add: chain_end_def)
  next
    case (Inr results)
    then have l: "listing w folder_id = (case files results of None \<Rightarrow> [] | Some xs \<Rightarrow> xs)"
      by (simp add: listing_def)
    from Suc.prems(1) Inr obtain r2 where
      t: "traverse_items n w (listing w folder_id) current_path ?s1 = Some (r2, s')"
      and r: "except_HttpError () r2 = Inr ()"
      by (auto simp: Let_def l split: option.splits)
    from t traverse_items_not_HttpError [of n w "listing w folder_id" current_path ?s1 s']
    have "r2 \<noteq> Inl HttpError" by auto
    with r have "r2 = Inr ()" by (cases r2) (auto simp: except_HttpError_def)
    with t have run: "traverse_items n w (listing w folder_id) current_path ?s1 = Some (Inr (), s')"
      by simp
    note it = traverse_items_processes [OF run]
    note e1 = list_call_extends [of s folder_id]
    show ?thesis
    proof (cases ds)
      case Nil
      with Suc.prems(3,4) it have "processed w v current_path ?s1 s'"
        by (simp add: chain_end_def)
      from processed_widen [OF e1 this extends_refl] Nil show ?thesis
        by (simp add: joined_path_def)
    next
      case (Cons d ds')
      with Suc.prems(2) have d: "d \<in> set (listing w folder_id)" "is_folder d"
        "folder_chain w (item_id d) ds'" by simp_all
      from it d(1,2) obtain t t' rows where f:
        "extends ?s1 t"
        "traverse_folder n w (item_id d) (current_path @ ''/'' @ item_name d) t = Some (Inr (), t')"
        "extends t' s'" "sheet s' = sheet t' @ rows"
        by blast
      from Suc.prems(3) Cons have "v \<in> set (listing w (chain_end (item_id d) ds'))"
        by (simp add: chain_end_Cons)
      from Suc.IH [OF f(2) d(3) this Suc.prems(4)]
      have "processed w v (joined_path (current_path @ ''/'' @ item_name d) ds') t t'" .
      from processed_widen [OF extends_trans [OF e1 f(1)] this f(3)] f(4) Cons show ?thesis
        by (simp add: joined_path_Cons)
    qed
  qed
qed

lemma new_events_between:
  assumes "extends a b" "extends b c" "extends c d" "e \<in> set (new_events b c)"
  shows "e \<in> set (new_events a d)"
proof -
  from new_events_extends [OF assms(1) extends_trans [OF assms(2,3)]]
    new_events_extends [OF assms(2,3)] assms(4)
  show ?thesis by simp
qed

lemma thumbnail_name_of_extension:
  "CHR ''/'' \<notin> set stem \<Longrightarrow> CHR ''/'' \<notin> set ext \<Longrightarrow> CHR ''.'' \<notin> set ext \<Longrightarrow>
   \<exists>c \<in> set stem. c \<noteq> CHR ''.'' \<Longrightarrow>
   thumbnail_name_of (stem @ CHR ''.'' # ext) = stem @ ''_Thumbnail.jpg''"
  by (simp add: thumbnail_name_of_def splitext_extension)

lemma thumbnail_name_of_no_dot:
  "CHR ''.'' \<notin> set name \<Longrightarrow> thumbnail_name_of name = name @ ''_Thumbnail.jpg''"
  by (simp add: thumbnail_name_of_def splitext_no_dot)

lemma thumbnail_name_of_leading_dots:
  "CHR ''/'' \<notin> set ext \<Longrightarrow> CHR ''.'' \<notin> set ext \<Longrightarrow> \<forall>c \<in> set dots. c = CHR ''.'' \<Longrightarrow>
   thumbnail_name_of (dots @ CHR ''.'' # ext) = (dots @ CHR ''.'' # ext) @ ''_Thumbnail.jpg''"
  by (simp add: thumbnail_name_of_def splitext_leading_dots)

lemma append_to_sheet_written:
  assumes "append_to_sheet w (Some data_row) s = (r, s')" "data_row \<noteq> []" "j < 5"
    and "\<forall>k<j. \<exists>e. values_append w (append_requests s + k) data_row = Some e \<and> transient e"
    and "values_append w (append_requests s + j) data_row = None"
  shows "r = Inr () \<and> sheet s' = sheet s @ [data_row]"
proof -
  from assms(1,2) have run: "append_attempts w data_row 0 2 s = (r, s')"
    by (simp add: append_to_sheet_def)
  from assms(3) have "j + 0 < max_retries" by (simp add: max_retries_def)
  from append_attempts_succeeds [OF this assms(4,5), of 2] run show ?thesis by simp
qed

lemma traverse_folder_walks_listing:
  "traverse_folder (Suc n) w folder_id current_path s =
     (case files_list w folder_id None of
        Inl error \<Rightarrow> Some (except_HttpError () (Inl error), log (ListCall folder_id None) s)
      | Inr results \<Rightarrow>
          (case traverse_items n w (listing w folder_id) current_path
                  (log (ListCall folder_id None) s) of
             None \<Rightarrow> None
           | Some (r, s2) \<Rightarrow> Some (except_HttpError () r, s2)))"
  by (simp add: Let_def listing_def split: sum.splits)

lemma processed_row:
  assumes "extends s0 t" "process_video w v path t = (Inr log_data, t1)"
    "append_to_sheet w (map_option cells log_data) t1 = (Inr (), t2)"
    "extends t2 s_end" "sheet s_end = sheet t2 @ rows"
    "log_data = Some (name, p, link)"
  shows "p = path \<and>
         AppendCall [name, Some path, link] \<in> set (new_events s0 s_end) \<and>
         (values_append w (append_requests t1) [name, Some path, link] = None \<longrightarrow>
            [name, Some path, link] \<in> set (sheet s_end))"
proof -
  from process_video_Some [OF assms(2) [unfolded assms(6)]] have p: "p = path" by simp
  from assms(3,6) p have a: "append_to_sheet w (Some [name, Some path, link]) t1 = (Inr (), t2)"
    by (simp add: cells_def)
  have "AppendCall [name, Some path, link] \<in> set (new_events t1 t2)"
    by (rule append_to_sheet_requests [OF _ a]) simp
  from new_events_between [OF extends_trans [OF assms(1) process_video_extends [OF assms(2)]]
      append_to_sheet_extends [OF a] assms(4) this]
  have ev: "AppendCall [name, Some path, link] \<in> set (new_events s0 s_end)" .
  have "[name, Some path, link] \<in> set (sheet s_end)"
    if "values_append w (append_requests t1) [name, Some path, link] = None"
  proof -
    from append_to_sheet_written [OF a, of 0] that
    have "sheet t2 = sheet t1 @ [[name, Some path, link]]" by simp
    with assms(5) show ?thesis by simp
  qed
  with p ev show ?thesis by blast
qed

text \<open>
  Claim C5. When \<open>process_video\<close> returns a row \<open>(thumbnail_name, original_path, link)\<close>:
  the path is the one the walker passed; one file was uploaded, under the name
  \<open>thumbnail_name_of\<close> of the video's name, and the name and the link of the row are those
  of the service's answer to that upload; the walker hands exactly that row to
  \<open>append_to_sheet\<close> once and goes on with the next entry; \<open>append_to_sheet\<close> sends a
  request with that row, adds it to the sheet at most once, and exactly once when one of
  its five requests succeeds after requests that failed with a caught exception.

  The name of the thumbnail: for a video name \<^verbatim>\<open>stem.ext\<close>, where the extension holds
  neither a dot nor a slash and the stem holds no slash and a character other than a dot,
  it is the stem followed by \<^verbatim>\<open>_Thumbnail.jpg\<close>; a name without a dot, and a name made of
  dots followed by one extension (\<^verbatim>\<open>.mp4\<close>), is kept whole and followed by
  \<^verbatim>\<open>_Thumbnail.jpg\<close>.

  The path: for a sub-folder the loop walks the folder with the current path extended by
  \<^verbatim>\<open>/\<close> and the folder's name, and \<open>traverse_folder\<close> runs the loop on the entries of the
  folder's listing with its own path. So when a walk that starts at a folder with a path
  returns normally, then for every chain of nested folders below that folder and every
  video in the listing of the folder the chain leads to, the walk called \<open>process_video\<close>
  for that video with the starting path followed by the names of the folders of the chain,
  joined by slashes, and handed the result to \<open>append_to_sheet\<close>; a row so produced holds
  that path, a request to append it was sent during the walk, and it is in the sheet at the
  end of the walk when the first request succeeded.
\<close>

theorem process_video_ledger_row:
  "(process_video w video_file folder_path s =
      (Inr (Some (thumbnail_name, original_path, link)), s') \<longrightarrow>
      original_path = folder_path \<and>
      (\<exists>media up.
         files_create w \<lparr>md_name = thumbnail_name_of (item_name video_file),
                         md_parents = [THUMBNAIL_FOLDER_ID w]\<rparr> media = Inr up \<and>
         thumbnail_name = up_name up \<and> link = webViewLink up \<and>
         drive_uploaded s' = drive_uploaded s @
           [(\<lparr>md_name = thumbnail_name_of (item_name video_file),
              md_parents = [THUMBNAIL_FOLDER_ID w]\<rparr>, media)]) \<and>
      (is_video video_file \<longrightarrow>
         traverse_items n w (video_file # items) folder_path s =
           (case append_to_sheet w (Some [thumbnail_name, Some folder_path, link]) s' of
              (Inl error, s2) \<Rightarrow> Some (Inl error, s2)
            | (Inr u, s2) \<Rightarrow> traverse_items n w items folder_path s2)) \<and>
      (\<forall>r2 s2.
         append_to_sheet w (Some [thumbnail_name, Some folder_path, link]) s' = (r2, s2) \<longrightarrow>
         AppendCall [thumbnail_name, Some folder_path, link] \<in> set (new_events s' s2) \<and>
         (sheet s2 = sheet s' \<or>
          sheet s2 = sheet s' @ [[thumbnail_name, Some folder_path, link]]) \<and>
         (\<forall>j<5.
            (\<forall>k<j. \<exists>e. values_append w (append_requests s' + k)
                         [thumbnail_name, Some folder_path, link] = Some e \<and> transient e) \<and>
            values_append w (append_requests s' + j)
              [thumbnail_name, Some folder_path, link] = None \<longrightarrow>
            r2 = Inr () \<and> sheet s2 = sheet s' @ [[thumbnail_name, Some folder_path, link]]))) \<and>
   (CHR ''/'' \<notin> set stem \<and> CHR ''/'' \<notin> set ext \<and> CHR ''.'' \<notin> set ext \<and>
    (\<exists>c \<in> set stem. c \<noteq> CHR ''.'') \<longrightarrow>
      thumbnail_name_of (stem @ CHR ''.'' # ext) = stem @ ''_Thumbnail.jpg'') \<and>
   (CHR ''.'' \<notin> set file_name \<longrightarrow>
      thumbnail_name_of file_name = file_name @ ''_Thumbnail.jpg'') \<and>
   (CHR ''/'' \<notin> set ext \<and> CHR ''.'' \<notin> set ext \<and> (\<forall>c \<in> set dots. c = CHR ''.'') \<longrightarrow>
      thumbnail_name_of (dots @ CHR ''.'' # ext) = (dots @ CHR ''.'' # ext) @ ''_Thumbnail.jpg'') \<and>
   (is_folder folder \<longrightarrow>
      traverse_items n w (folder # items) folder_path s0 =
        (case traverse_folder n w (item_id folder) (folder_path @ ''/'' @ item_name folder) s0 of
           None \<Rightarrow> None
         | Some (Inl error, s1) \<Rightarrow> Some (Inl error, s1)
         | Some (Inr u, s1) \<Rightarrow> traverse_items n w items folder_path s1)) \<and>
   traverse_folder (Suc n) w folder_id folder_path s0 =
     (case files_list w folder_id None of
        Inl error \<Rightarrow> Some (except_HttpError () (Inl error), log (ListCall folder_id None) s0)
      | Inr results \<Rightarrow>
          (case traverse_items n w (listing w folder_id) folder_path
                  (log (ListCall folder_id None) s0) of
             None \<Rightarrow> None
           | Some (r, s2) \<Rightarrow> Some (except_HttpError () r, s2))) \<and>
   (traverse_folder n w folder_id root_path s0 = Some (Inr (), s_end) \<and>
    folder_chain w folder_id ds \<and> v \<in> set (listing w (chain_end folder_id ds)) \<and>
    is_video v \<longrightarrow>
      (\<exists>t log_data t1 t2.
         extends s0 t \<and>
         process_video w v (joined_path root_path ds) t = (Inr log_data, t1) \<and>
         append_to_sheet w (map_option cells log_data) t1 = (Inr (), t2) \<and>
         extends t2 s_end \<and>
         (\<forall>name path url. log_data = Some (name, path, url) \<longrightarrow>
            path = joined_path root_path ds \<and>
            AppendCall [name, Some (joined_path root_path ds), url] \<in>
              set (new_events s0 s_end) \<and>
            (values_append w (append_requests t1)
               [name, Some (joined_path root_path ds), url] = None \<longrightarrow>
               [name, Some (joined_path root_path ds), url] \<in> set (sheet s_end)))))"
proof -
  let ?row = "[thumbnail_name, Some folder_path, link]"
  have a: "process_video w video_file folder_path s =
      (Inr (Some (thumbnail_name, original_path, link)), s') \<longrightarrow>
      original_path = folder_path \<and>
      (\<exists>media up.
         files_create w \<lparr>md_name = thumbnail_name_of (item_name video_file),
                         md_parents = [THUMBNAIL_FOLDER_ID w]\<rparr> media = Inr up \<and>
         thumbnail_name = up_name up \<and> link = webViewLink up \<and>
         drive_uploaded s' = drive_uploaded s @
           [(\<lparr>md_name = thumbnail_name_of (item_name video_file),
              md_parents = [THUMBNAIL_FOLDER_ID w]\<rparr>, media)]) \<and>
      (is_video video_file \<longrightarrow>
         traverse_items n w (video_file # items) folder_path s =
           (case append_to_sheet w (Some ?row) s' of
              (Inl error, s2) \<Rightarrow> Some (Inl error, s2)
            | (Inr u, s2) \<Rightarrow> traverse_items n w items folder_path s2)) \<and>
      (\<forall>r2 s2.
         append_to_sheet w (Some ?row) s' = (r2, s2) \<longrightarrow>
         AppendCall ?row \<in> set (new_events s' s2) \<and>
         (sheet s2 = sheet s' \<or> sheet s2 = sheet s' @ [?row]) \<and>
         (\<forall>j<5.
            (\<forall>k<j. \<exists>e. values_append w (append_requests s' + k) ?row = Some e \<and> transient e) \<and>
            values_append w (append_requests s' + j) ?row = None \<longrightarrow>
            r2 = Inr () \<and> sheet s2 = sheet s' @ [?row]))"
  proof (intro impI conjI allI)
    assume run: "process_video w video_file folder_path s =
      (Inr (Some (thumbnail_name, original_path, link)), s')"
    from process_video_Some [OF run]
    show p: "original_path = folder_path"
      and "\<exists>media up.
         files_create w \<lparr>md_name = thumbnail_name_of (item_name video_file),
                         md_parents = [THUMBNAIL_FOLDER_ID w]\<rparr> media = Inr up \<and>
         thumbnail_name = up_name up \<and> link = webViewLink up \<and>
         drive_uploaded s' = drive_uploaded s @
           [(\<lparr>md_name = thumbnail_name_of (item_name video_file),
              md_parents = [THUMBNAIL_FOLDER_ID w]\<rparr>, media)]"
      by simp_all
    show "traverse_items n w (video_file # items) folder_path s =
           (case append_to_sheet w (Some ?row) s' of
              (Inl error, s2) \<Rightarrow> Some (Inl error, s2)
            | (Inr u, s2) \<Rightarrow> traverse_items n w items folder_path s2)"
      if "is_video video_file"
      using is_video_mime [OF that] run p by (simp add: cells_def)
    fix r2 s2
    assume ap: "append_to_sheet w (Some ?row) s' = (r2, s2)"
    show "AppendCall ?row \<in> set (new_events s' s2)"
      by (rule append_to_sheet_requests [OF _ ap]) simp
    from append_to_sheet_at_most_one_row [OF ap]
    show "sheet s2 = sheet s' \<or> sheet s2 = sheet s' @ [?row]" by auto
    fix j :: nat
    assume "j < 5" and "(\<forall>k<j. \<exists>e. values_append w (append_requests s' + k) ?row = Some e \<and>
        transient e) \<and> values_append w (append_requests s' + j) ?row = None"
    then have "r2 = Inr () \<and> sheet s2 = sheet s' @ [?row]"
      by (intro append_to_sheet_written [OF ap, of j]) simp_all
    then show "r2 = Inr ()" "sheet s2 = sheet s' @ [?row]" by simp_all
  qed
  have b1: "CHR ''/'' \<notin> set stem \<and> CHR ''/'' \<notin> set ext \<and> CHR ''.'' \<notin> set ext \<and>
    (\<exists>c \<in> set stem. c \<noteq> CHR ''.'') \<longrightarrow>
      thumbnail_name_of (stem @ CHR ''.'' # ext) = stem @ ''_Thumbnail.jpg''"
    using thumbnail_name_of_extension [of stem ext] by blast
  have b2: "CHR ''.'' \<notin> set file_name \<longrightarrow>
      thumbnail_name_of file_name = file_name @ ''_Thumbnail.jpg''"
    using thumbnail_name_of_no_dot [of file_name] by blast
  have b3: "CHR ''/'' \<notin> set ext \<and> CHR ''.'' \<notin> set ext \<and> (\<forall>c \<in> set dots. c = CHR ''.'') \<longrightarrow>
      thumbnail_name_of (dots @ CHR ''.'' # ext) = (dots @ CHR ''.'' # ext) @ ''_Thumbnail.jpg''"
    using thumbnail_name_of_leading_dots [of ext dots] by blast
  have c1: "is_folder folder \<longrightarrow>
      traverse_items n w (folder # items) folder_path s0 =
        (case traverse_folder n w (item_id folder) (folder_path @ ''/'' @ item_name folder) s0 of
           None \<Rightarrow> None
         | Some (Inl error, s1) \<Rightarrow> Some (Inl error, s1)
         | Some (Inr u, s1) \<Rightarrow> traverse_items n w items folder_path s1)"
    by (simp add: is_folder_mime)
  have c2: "traverse_folder (Suc n) w folder_id folder_path s0 =
     (case files_list w folder_id None of
        Inl error \<Rightarrow> Some (except_HttpError () (Inl error), log (ListCall folder_id None) s0)
      | Inr results \<Rightarrow>
          (case traverse_items n w (listing w folder_id) folder_path
                  (log (ListCall folder_id None) s0) of
             None \<Rightarrow> None
           | Some (r, s2) \<Rightarrow> Some (except_HttpError () r, s2)))"
    by (rule traverse_folder_walks_listing)
  have c3: "traverse_folder n w folder_id root_path s0 = Some (Inr (), s_end) \<and>
    folder_chain w folder_id ds \<and> v \<in> set (listing w (chain_end folder_id ds)) \<and>
    is_video v \<longrightarrow>
      (\<exists>t log_data t1 t2.
         extends s0 t \<and>
         process_video w v (joined_path root_path ds) t = (Inr log_data, t1) \<and>
         append_to_sheet w (map_option cells log_data) t1 = (Inr (), t2) \<and>
         extends t2 s_end \<and>
         (\<forall>name path url. log_data = Some (name, path, url) \<longrightarrow>
            path = joined_path root_path ds \<and>
            AppendCall [name, Some (joined_path root_path ds), url] \<in>
              set (new_events s0 s_end) \<and>
            (values_append w (append_requests t1)
               [name, Some (joined_path root_path ds), url] = None \<longrightarrow>
               [name, Some (joined_path root_path ds), url] \<in> set (sheet s_end))))"
  proof
    assume h: "traverse_folder n w folder_id root_path s0 = Some (Inr (), s_end) \<and>
      folder_chain w folder_id ds \<and> v \<in> set (listing w (chain_end folder_id ds)) \<and> is_video v"
    then have "traverse_folder n w folder_id root_path s0 = Some (Inr (), s_end)"
      "folder_chain w folder_id ds" "v \<in> set (listing w (chain_end folder_id ds))" "is_video v"
      by simp_all
    then have "processed w v (joined_path root_path ds) s0 s_end"
      by (rule traverse_folder_processes)
    then obtain t log_data t1 t2 rows where p:
      "extends s0 t" "process_video w v (joined_path root_path ds) t = (Inr log_data, t1)"
      "append_to_sheet w (map_option cells log_data) t1 = (Inr (), t2)"
      "extends t2 s_end" "sheet s_end = sheet t2 @ rows"
      unfolding processed_def by blast
    have "\<forall>name path url. log_data = Some (name, path, url) \<longrightarrow>
            path = joined_path root_path ds \<and>
            AppendCall [name, Some (joined_path root_path ds), url] \<in>
              set (new_events s0 s_end) \<and>
            (values_append w (append_requests t1)
               [name, Some (joined_path root_path ds), url] = None \<longrightarrow>
               [name, Some (joined_path root_path ds), url] \<in> set (sheet s_end))"
      using processed_row [OF p] by blast
    with p(1-4) show "\<exists>t log_data t1 t2.
         extends s0 t \<and>
         process_video w v (joined_path root_path ds) t = (Inr log_data, t1) \<and>
         append_to_sheet w (map_option cells log_data) t1 = (Inr (), t2) \<and>
         extends t2 s_end \<and>
         (\<forall>name path url. log_data = Some (name, path, url) \<longrightarrow>
            path = joined_path root_path ds \<and>
            AppendCall [name, Some (joined_path root_path ds), url] \<in>
              set (new_events s0 s_end) \<and>
            (values_append w (append_requests t1)
               [name, Some (joined_path root_path ds), url] = None \<longrightarrow>
               [name, Some (joined_path root_path ds), url] \<in> set (sheet s_end)))"
      by blast
  qed
  show ?thesis by (intro conjI a b1 b2 b3 c1 c2 c3)
qed

text \<open>
  The scenario's video, whose row is written by the first request, and by the fifth
  request when the first four fail; four names and their thumbnails; the scenario's
  folder; the scenario's walk, whose sheet holds the row with the path \<^verbatim>\<open><root>/Clips\<close>; and
  the walk of the folders nested two deep, whose sheet holds the row with the path
  \<^verbatim>\<open><root>/Clips/2024\<close>.
\<close>

theorem process_video_ledger_row_witness:
  "process_video demo_world demo_video ''<root>/Clips'' demo_state =
     (Inr (Some (Some ''a_Thumbnail.jpg'', ''<root>/Clips'', Some ''link'')),
      snd (process_video demo_world demo_video ''<root>/Clips'' demo_state)) \<and>
   traverse_items 0 demo_world [demo_video] ''<root>/Clips'' demo_state =
     Some (append_to_sheet demo_world (Some demo_row)
             (snd (process_video demo_world demo_video ''<root>/Clips'' demo_state))) \<and>
   sheet (snd (append_to_sheet demo_world (Some demo_row)
                (snd (process_video demo_world demo_video ''<root>/Clips'' demo_state)))) =
     [demo_row] \<and>
   sheet (snd (append_to_sheet flaky_sheet_world (Some demo_row)
                (snd (process_video flaky_sheet_world demo_video ''<root>/Clips'' demo_state)))) =
     [demo_row] \<and>
   thumbnail_name_of ''a.mp4'' = ''a_Thumbnail.jpg'' \<and>
   thumbnail_name_of ''trip.day1.mov'' = ''trip.day1_Thumbnail.jpg'' \<and>
   thumbnail_name_of ''README'' = ''README_Thumbnail.jpg'' \<and>
   thumbnail_name_of ''.mp4'' = ''.mp4_Thumbnail.jpg'' \<and>
   traverse_items 1 demo_world [demo_folder] ''<root>'' demo_state =
     traverse_folder 1 demo_world ''c'' ''<root>/Clips'' demo_state \<and>
   demo_row \<in> set (sheet (snd (the (traverse_folder 2 demo_world ''root'' ''<root>'' demo_state)))) \<and>
   [Some ''trip.day1_Thumbnail.jpg'', Some ''<root>/Clips/2024'', Some ''link''] \<in>
     set (sheet (snd (the (traverse_folder 3 nested_world ''root'' ''<root>'' demo_state)))) \<and>
   AppendCall [Some ''trip.day1_Thumbnail.jpg'', Some ''<root>/Clips/2024'', Some ''link''] \<in>
     set (new_events demo_state
            (snd (the (traverse_folder 3 nested_world ''root'' ''<root>'' demo_state))))"
proof -
  note c = process_video_ledger_row
  let ?s' = "snd (process_video demo_world demo_video ''<root>/Clips'' demo_state)"
  let ?sf = "snd (process_video flaky_sheet_world demo_video ''<root>/Clips'' demo_state)"
  have "fst (process_video demo_world demo_video ''<root>/Clips'' demo_state) =
     Inr (Some (Some ''a_Thumbnail.jpg'', ''<root>/Clips'', Some ''link''))"
    by code_simp
  then have run: "process_video demo_world demo_video ''<root>/Clips'' demo_state =
     (Inr (Some (Some ''a_Thumbnail.jpg'', ''<root>/Clips'', Some ''link'')), ?s')"
    by (simp add: prod_eq_iff)
  have "fst (process_video flaky_sheet_world demo_video ''<root>/Clips'' demo_state) =
     Inr (Some (Some ''a_Thumbnail.jpg'', ''<root>/Clips'', Some ''link''))"
    by code_simp
  then have runf: "process_video flaky_sheet_world demo_video ''<root>/Clips'' demo_state =
     (Inr (Some (Some ''a_Thumbnail.jpg'', ''<root>/Clips'', Some ''link'')), ?sf)"
    by (simp add: prod_eq_iff)
  have v: "is_video demo_video" by (simp add: demo_video_def is_video_def)
  have f: "is_folder demo_folder" "item_id demo_folder = ''c''" "item_name demo_folder = ''Clips''"
    by (simp_all add: demo_folder_def is_folder_def)
  have sh: "sheet ?s' = []" "fst (append_to_sheet demo_world (Some demo_row) ?s') = Inr ()"
    "sheet ?sf = []" "append_requests ?sf = 0"
    by code_simp+
  have ok: "(\<forall>k<0. \<exists>e. values_append demo_world (append_requests ?s' + k)
                 [Some ''a_Thumbnail.jpg'', Some ''<root>/Clips'', Some ''link''] = Some e \<and>
               transient e) \<and>
            values_append demo_world (append_requests ?s' + 0)
              [Some ''a_Thumbnail.jpg'', Some ''<root>/Clips'', Some ''link''] = None"
    by (simp add: demo_world_def)
  have flaky: "(\<forall>k<4. \<exists>e. values_append flaky_sheet_world (append_requests ?sf + k)
                 [Some ''a_Thumbnail.jpg'', Some ''<root>/Clips'', Some ''link''] = Some e \<and>
               transient e) \<and>
            values_append flaky_sheet_world (append_requests ?sf + 4)
              [Some ''a_Thumbnail.jpg'', Some ''<root>/Clips'', Some ''link''] = None"
    unfolding sh(4) by (simp add: flaky_sheet_world_def transient_def)
  note row = c [where w = demo_world and n = 0 and items = "[]", THEN conjunct1, THEN mp, OF run]
  note walker = row [THEN conjunct2, THEN conjunct2, THEN conjunct1, THEN mp, OF v]
  note once = row [THEN conjunct2, THEN conjunct2, THEN conjunct2, THEN spec, THEN spec,
      THEN mp, OF prod.collapse [symmetric], THEN conjunct2, THEN conjunct2,
      THEN spec, THEN mp, THEN mp, OF _ ok]
  note fifth = c [where w = flaky_sheet_world, THEN conjunct1, THEN mp, OF runf,
      THEN conjunct2, THEN conjunct2, THEN conjunct2, THEN spec, THEN spec,
      THEN mp, OF prod.collapse [symmetric], THEN conjunct2, THEN conjunct2,
      THEN spec, THEN mp, THEN mp, OF _ flaky]
  from walker sh(2)
  have a1: "traverse_items 0 demo_world [demo_video] ''<root>/Clips'' demo_state =
     Some (append_to_sheet demo_world (Some demo_row) ?s')"
    by (simp add: demo_row_def prod_eq_iff split: prod.splits sum.splits)
  from once sh(1)
  have a2: "sheet (snd (append_to_sheet demo_world (Some demo_row) ?s')) = [demo_row]"
    by (simp add: demo_row_def)
  from fifth sh(3)
  have a3: "sheet (snd (append_to_sheet flaky_sheet_world (Some demo_row) ?sf)) = [demo_row]"
    by (simp add: demo_row_def)
  have b1: "thumbnail_name_of ''a.mp4'' = ''a_Thumbnail.jpg''"
    using c [where stem = "''a''" and ext = "''mp4''", THEN conjunct2, THEN conjunct1] by simp
  have b2: "thumbnail_name_of ''trip.day1.mov'' = ''trip.day1_Thumbnail.jpg''"
    using c [where stem = "''trip.day1''" and ext = "''mov''", THEN conjunct2, THEN conjunct1]
    by simp
  have b3: "thumbnail_name_of ''README'' = ''README_Thumbnail.jpg''"
    using c [where file_name = "''README''", THEN conjunct2, THEN conjunct2, THEN conjunct1]
    by simp
  have b4: "thumbnail_name_of ''.mp4'' = ''.mp4_Thumbnail.jpg''"
    using c [where dots = "[]" and ext = "''mp4''", THEN conjunct2, THEN conjunct2,
        THEN conjunct2, THEN conjunct1] by simp
  have t: "traverse_folder 1 demo_world ''c'' ''<root>/Clips'' demo_state \<noteq> None"
    "fst (the (traverse_folder 1 demo_world ''c'' ''<root>/Clips'' demo_state)) = Inr ()"
    by code_simp+
  from c [where w = demo_world and folder = demo_folder and n = 1 and items = "[]"
      and folder_path = "''<root>''" and ?s0.0 = demo_state,
      THEN conjunct2, THEN conjunct2, THEN conjunct2, THEN conjunct2, THEN conjunct1,
      THEN mp, OF f(1)] t
  have c1: "traverse_items 1 demo_world [demo_folder] ''<root>'' demo_state =
     traverse_folder 1 demo_world ''c'' ''<root>/Clips'' demo_state"
    by (auto simp: f split: option.splits prod.splits sum.splits)
  have walk: "row \<in> set (sheet (snd (the (traverse_folder n w ''root'' ''<root>'' demo_state)))) \<and>
      AppendCall row \<in> set (new_events demo_state
        (snd (the (traverse_folder n w ''root'' ''<root>'' demo_state))))"
    if st: "stable_services w" and sheet_ok: "\<And>k r. values_append w k r = None"
      and run: "traverse_folder n w ''root'' ''<root>'' demo_state \<noteq> None"
        "fst (the (traverse_folder n w ''root'' ''<root>'' demo_state)) = Inr ()"
      and chain: "folder_chain w ''root'' ds" "video \<in> set (listing w (chain_end ''root'' ds))"
        "is_video video"
      and res: "fst (process_video w video (joined_path ''<root>'' ds) demo_state) =
         Inr (Some (name, path, url))"
      and row: "row = [name, Some (joined_path ''<root>'' ds), url]"
    for w n ds video name path url row
  proof -
    let ?end = "snd (the (traverse_folder n w ''root'' ''<root>'' demo_state))"
    from run have "traverse_folder n w ''root'' ''<root>'' demo_state = Some (Inr (), ?end)"
      by (auto simp: prod_eq_iff)
    with chain have "traverse_folder n w ''root'' ''<root>'' demo_state = Some (Inr (), ?end) \<and>
      folder_chain w ''root'' ds \<and> video \<in> set (listing w (chain_end ''root'' ds)) \<and>
      is_video video" by simp
    from c [THEN conjunct2, THEN conjunct2, THEN conjunct2, THEN conjunct2, THEN conjunct2,
        THEN conjunct2, THEN mp, OF this]
    obtain t log_data t1 t2 where p:
      "process_video w video (joined_path ''<root>'' ds) t = (Inr log_data, t1)"
      "\<forall>name path url. log_data = Some (name, path, url) \<longrightarrow>
            path = joined_path ''<root>'' ds \<and>
            AppendCall [name, Some (joined_path ''<root>'' ds), url] \<in>
              set (new_events demo_state ?end) \<and>
            (values_append w (append_requests t1)
               [name, Some (joined_path ''<root>'' ds), url] = None \<longrightarrow>
               [name, Some (joined_path ''<root>'' ds), url] \<in> set (sheet ?end))"
      by blast
    from process_video_frame [OF st p(1), of demo_state] res
    have "log_data = Some (name, path, url)" by auto
    with p(2) sheet_ok row show ?thesis by blast
  qed
  have st: "stable_services demo_world" "stable_services nested_world"
    by (simp_all add: stable_services_def demo_world_def nested_world_def)
  have d1: "demo_row \<in> set (sheet (snd (the (traverse_folder 2 demo_world ''root'' ''<root>''
      demo_state))))"
  proof -
    have "traverse_folder 2 demo_world ''root'' ''<root>'' demo_state \<noteq> None"
      "fst (the (traverse_folder 2 demo_world ''root'' ''<root>'' demo_state)) = Inr ()"
      "folder_chain demo_world ''root'' [demo_folder]"
      "demo_video \<in> set (listing demo_world (chain_end ''root'' [demo_folder]))"
      "fst (process_video demo_world demo_video (joined_path ''<root>'' [demo_folder]) demo_state) =
         Inr (Some (Some ''a_Thumbnail.jpg'', ''<root>/Clips'', Some ''link''))"
      "demo_row = [Some ''a_Thumbnail.jpg'', Some (joined_path ''<root>'' [demo_folder]),
         Some ''link'']"
      by code_simp+
    from walk [OF st(1) _ this(1-4) v this(5,6)] show ?thesis by (simp add: demo_world_def)
  qed
  have d2: "[Some ''trip.day1_Thumbnail.jpg'', Some ''<root>/Clips/2024'', Some ''link''] \<in>
     set (sheet (snd (the (traverse_folder 3 nested_world ''root'' ''<root>'' demo_state)))) \<and>
   AppendCall [Some ''trip.day1_Thumbnail.jpg'', Some ''<root>/Clips/2024'', Some ''link''] \<in>
     set (new_events demo_state
            (snd (the (traverse_folder 3 nested_world ''root'' ''<root>'' demo_state))))"
  proof -
    have "traverse_folder 3 nested_world ''root'' ''<root>'' demo_state \<noteq> None"
      "fst (the (traverse_folder 3 nested_world ''root'' ''<root>'' demo_state)) = Inr ()"
      "folder_chain nested_world ''root'' [demo_folder, year_folder]"
      "trip_video \<in> set (listing nested_world (chain_end ''root'' [demo_folder, year_folder]))"
      "is_video trip_video"
      "fst (process_video nested_world trip_video
              (joined_path ''<root>'' [demo_folder, year_folder]) demo_state) =
         Inr (Some (Some ''trip.day1_Thumbnail.jpg'', ''<root>/Clips/2024'', Some ''link''))"
      "[Some ''trip.day1_Thumbnail.jpg'', Some ''<root>/Clips/2024'', Some ''link''] =
         [Some ''trip.day1_Thumbnail.jpg'',
          Some (joined_path ''<root>'' [demo_folder, year_folder]), Some ''link'']"
      by code_simp+
    from walk [OF st(2) _ this] show ?thesis by (simp add: nested_world_def demo_world_def)
  qed
  from run a1 a2 a3 b1 b2 b3 b4 c1 d1 d2 show ?thesis by simp
qed

end
